theory Spec2Isabelle
  imports Main "HOL-Library.Monad_Syntax"
begin

section \<open>LaTeX analysis engines of latex_server.py\<close>

text \<open>
  The program is a set of Python functions over \<open>str\<close>. A text is modelled as a
  \<open>string\<close>: one \<open>char\<close> per character, so the model covers the texts whose code points
  lie in 0..255 (Latin-1), where \<open>str.lower\<close>, \<open>str.strip\<close> and the regular expressions
  of the source act as written below. The backslash cannot be written inside a string
  literal, so it appears as \<open>CHR 0x5C\<close> and the line feed as \<open>CHR 0x0A\<close>.
\<close>

subsection \<open>Regular expressions: the constructs the source's patterns use\<close>

text \<open>
  Python's \<open>re\<close> is a backtracking matcher. Each construct below takes the remaining
  input and, where the construct can give back characters, the rest of the pattern as a
  continuation \<open>k\<close>; it returns the first success in the order Python tries the
  alternatives. A pattern applied at a position returns its groups and the input left
  after the match.
\<close>

text \<open>A literal: \<open>\\section\{\<close>, \<open>\$\<close>, \<open>\}\<close>, ...\<close>

fun lit :: "string \<Rightarrow> string \<Rightarrow> string option" where
  "lit [] s = Some s"
| "lit (p # ps) [] = None"
| "lit (p # ps) (c # cs) = (if p = c then lit ps cs else None)"

text \<open>
  A captured greedy star over a character class, \<open>([^}]*)\<close>: take a character of the
  class and go on; when that fails, or the next character is not of the class, close the
  group and run the rest of the pattern.
\<close>

fun greedy_star :: "(char \<Rightarrow> bool) \<Rightarrow> (string \<Rightarrow> 'a option) \<Rightarrow> string \<Rightarrow> (string \<times> 'a) option" where
  "greedy_star p k [] = map_option (Pair []) (k [])"
| "greedy_star p k (c # cs) =
     (if p c then
        (case greedy_star p k cs of
           Some (g, a) \<Rightarrow> Some (c # g, a)
         | None \<Rightarrow> map_option (Pair []) (k (c # cs)))
      else map_option (Pair []) (k (c # cs)))"

text \<open>A captured greedy plus, \<open>([^$]+)\<close>: one character of the class, then the star.\<close>

fun greedy_plus :: "(char \<Rightarrow> bool) \<Rightarrow> (string \<Rightarrow> 'a option) \<Rightarrow> string \<Rightarrow> (string \<times> 'a) option" where
  "greedy_plus p k [] = None"
| "greedy_plus p k (c # cs) =
     (if p c then map_option (\<lambda>(g, a). (c # g, a)) (greedy_star p k cs) else None)"

text \<open>
  A captured lazy star over any character, \<open>(.*?)\<close> under \<open>re.DOTALL\<close> (the dot
  matches the line feed too): run the rest of the pattern first, and take one more
  character only when that fails.
\<close>

fun lazy_dot_star :: "(string \<Rightarrow> 'a option) \<Rightarrow> string \<Rightarrow> (string \<times> 'a) option" where
  "lazy_dot_star k [] = map_option (Pair []) (k [])"
| "lazy_dot_star k (c # cs) =
     (case k (c # cs) of
        Some a \<Rightarrow> Some ([], a)
      | None \<Rightarrow> map_option (\<lambda>(g, a). (c # g, a)) (lazy_dot_star k cs))"

text \<open>A lookahead \<open>(?=...)\<close> consumes nothing.\<close>

definition lookahead :: "(string \<Rightarrow> bool) \<Rightarrow> string \<Rightarrow> string option" where
  "lookahead P s = (if P s then Some s else None)"

definition starts_with :: "string \<Rightarrow> string \<Rightarrow> bool" where
  "starts_with l s = (lit l s \<noteq> None)"

text \<open>
  \<open>$\<close> without \<open>re.MULTILINE\<close>: the end of the text, or just before a line feed that
  ends the text.
\<close>

definition at_dollar :: "string \<Rightarrow> bool" where
  "at_dollar s = (s = [] \<or> s = [CHR 0x0A])"

subsection \<open>Scanning: finditer and findall\<close>

text \<open>
  A match object: where the match starts and ends in the text, and its groups.
\<close>

record 'g rmatch =
  m_start :: nat
  m_end :: nat
  m_groups :: 'g

text \<open>
  \<open>re.finditer\<close>: try the pattern at each position from left to right; after a match,
  go on where it ended. \<open>i\<close> is the position of \<open>s\<close> in the text. A match that consumes
  nothing is recorded and the scan moves one character on (no pattern of this program
  can match the empty string: each begins with a literal).
\<close>

function finditer :: "(string \<Rightarrow> ('g \<times> string) option) \<Rightarrow> nat \<Rightarrow> string \<Rightarrow> 'g rmatch list" where
  "finditer m i [] =
     (case m [] of
        None \<Rightarrow> []
      | Some (g, r) \<Rightarrow> [\<lparr>m_start = i, m_end = i, m_groups = g\<rparr>])"
| "finditer m i (c # cs) =
     (case m (c # cs) of
        None \<Rightarrow> finditer m (Suc i) cs
      | Some (g, r) \<Rightarrow>
          \<lparr>m_start = i, m_end = i + (Suc (length cs) - length r), m_groups = g\<rparr> #
          (if length r < Suc (length cs)
           then finditer m (i + (Suc (length cs) - length r)) r
           else finditer m (Suc i) cs))"
  by pat_completeness auto
termination
  by (relation "measure (\<lambda>(m, i, s). length s)") auto

text \<open>\<open>re.findall\<close>: the groups of every match, in the order of the text.\<close>

definition findall :: "(string \<Rightarrow> ('g \<times> string) option) \<Rightarrow> string \<Rightarrow> 'g list" where
  "findall m text = map m_groups (finditer m 0 text)"

text \<open>
  The shape \<open>\\name\{([^}]*)\}\<close> shared by the patterns of the term checker and the
  citation analyzer; \<open>name\<close> is the literal up to and including the opening brace.
\<close>

definition braced :: "string \<Rightarrow> string \<Rightarrow> (string \<times> string) option" where
  "braced name s = lit name s \<bind> greedy_star (\<lambda>x. x \<noteq> CHR ''}'') (lit ''}'')"

subsection \<open>read_text\<close>

text \<open>
  The dictionaries the function builds. A subsection has the keys \<open>title\<close> and
  \<open>content\<close>, a section \<open>title\<close>, \<open>content\<close> and \<open>subsections\<close>, the result
  \<open>sections\<close> and \<open>content\<close>; field names are unique in a theory, hence the prefixes.
\<close>

record subsection_entry =
  sub_title :: string
  sub_content :: string

record section_entry =
  title :: string
  content :: string
  subsections :: "subsection_entry list"

record document =
  sections :: "section_entry list"
  doc_content :: string

text \<open>The literals \<open>\section{\<close> and \<open>\subsection{\<close>.\<close>

abbreviation section_marker :: string where
  "section_marker \<equiv> CHR 0x5C # ''section{''"

abbreviation subsection_marker :: string where
  "subsection_marker \<equiv> CHR 0x5C # ''subsection{''"

text \<open>\<open>\\section\{([^}]*)\}(.*?)(?=\\section\{|$)\<close> with \<open>re.DOTALL\<close>.\<close>

definition section_pattern :: "string \<Rightarrow> ((string \<times> string) \<times> string) option" where
  "section_pattern s =
     map_option (\<lambda>(t, b, r). ((t, b), r))
       (lit section_marker s \<bind>
        greedy_star (\<lambda>x. x \<noteq> CHR ''}'') (\<lambda>s1.
          lit ''}'' s1 \<bind>
          lazy_dot_star (lookahead (\<lambda>s2.
            starts_with section_marker s2 \<or> at_dollar s2))))"

text \<open>\<open>\\subsection\{([^}]*)\}(.*?)(?=\\subsection\{|\\section\{|$)\<close> with \<open>re.DOTALL\<close>.\<close>

definition subsection_pattern :: "string \<Rightarrow> ((string \<times> string) \<times> string) option" where
  "subsection_pattern s =
     map_option (\<lambda>(t, b, r). ((t, b), r))
       (lit subsection_marker s \<bind>
        greedy_star (\<lambda>x. x \<noteq> CHR ''}'') (\<lambda>s1.
          lit ''}'' s1 \<bind>
          lazy_dot_star (lookahead (\<lambda>s2.
            starts_with subsection_marker s2 \<or>
            starts_with section_marker s2 \<or> at_dollar s2))))"

definition read_text :: "string \<Rightarrow> document" where
  "read_text text =
     \<lparr>sections =
        map (\<lambda>(t, c).
          \<lparr>title = t, content = c,
           subsections =
             map (\<lambda>(sub_t, sub_c). \<lparr>sub_title = sub_t, sub_content = sub_c\<rparr>)
               (findall subsection_pattern c)\<rparr>)
          (findall section_pattern text),
      doc_content = text\<rparr>"

text \<open>The lookahead that ends a section body.\<close>

abbreviation section_end :: "string \<Rightarrow> string option" where
  "section_end \<equiv> lookahead (\<lambda>s2. starts_with section_marker s2 \<or> at_dollar s2)"

text \<open>\<open>occurs l s\<close>: the literal \<open>l\<close> stands somewhere in \<open>s\<close>.\<close>

fun occurs :: "string \<Rightarrow> string \<Rightarrow> bool" where
  "occurs l [] = starts_with l []"
| "occurs l (c # cs) = (starts_with l (c # cs) \<or> occurs l cs)"

text \<open>
  What a section body captures from a tail that holds no further section marker: the
  lazy star stops where \<open>$\<close> first matches, which is before the line feed when the
  tail ends with one, and at the end of the tail otherwise.
\<close>

definition chomp :: "string \<Rightarrow> string" where
  "chomp s = (if s \<noteq> [] \<and> last s = CHR 0x0A then butlast s else s)"

subsection \<open>rewrite_paragraph and optimize_equation\<close>

text \<open>
  The instruction of \<open>rewrite_paragraph\<close> is a fixed Chinese sentence; it lies outside
  Latin-1 and is kept as the list of its 39 Unicode code points.
\<close>

definition rewrite_instruction :: "nat list" where
  "rewrite_instruction =
     [35831, 26681, 25454, 19978, 19979, 25991, 23545, 36825, 27573, 76, 97, 84, 101, 88,
      25991, 26412, 36827, 34892, 28070, 33394, 21644, 25913, 20889, 65292, 20445, 25345,
      19987, 19994, 30340, 23398, 26415, 39118, 26684, 21644, 26415, 35821, 19968, 33268,
      24615]"

text \<open>
  The returned dictionary has the keys \<open>paragraph\<close>, \<open>context\<close>, \<open>style\<close> and
  \<open>instruction\<close>. The defaults \<open>context = ""\<close> and \<open>style = "academic"\<close> are filled
  in at the call, so the model takes all three arguments.
\<close>

record rewrite_reply =
  rp_paragraph :: string
  rp_context :: string
  rp_style :: string
  rp_instruction :: "nat list"

definition rewrite_paragraph :: "string \<Rightarrow> string \<Rightarrow> string \<Rightarrow> rewrite_reply" where
  "rewrite_paragraph paragraph ctx style =
     \<lparr>rp_paragraph = paragraph, rp_context = ctx, rp_style = style,
      rp_instruction = rewrite_instruction\<rparr>"

text \<open>
  \<open>optimize_equation\<close> takes no argument; its body is a docstring and \<open>pass\<close>, so it
  returns Python's \<open>None\<close>.
\<close>

definition optimize_equation :: "unit \<Rightarrow> rewrite_reply option" where
  "optimize_equation u = None"

subsection \<open>check_term_consistency\<close>

datatype py_error = KeyError

text \<open>
  A \<open>dict\<close> with string keys is an association list in insertion order; the source only
  ever stores under a key that is absent, which appends. \<open>d[k]\<close> raises \<open>KeyError\<close> on
  an absent key.
\<close>

definition dict_get :: "('k \<times> 'v) list \<Rightarrow> 'k \<Rightarrow> py_error + 'v" where
  "dict_get d k = (case map_of d k of None \<Rightarrow> Inl KeyError | Some v \<Rightarrow> Inr v)"

text \<open>
  \<open>str.lower\<close> on code points 0..255: the letters A..Z and the Latin-1 capitals
  0xC0..0xDE (but the multiplication sign 0xD7) move up by 32; every other character
  stays.
\<close>

definition lower_char :: "char \<Rightarrow> char" where
  "lower_char c =
     (let n = (of_char c :: nat) in
      if (65 \<le> n \<and> n \<le> 90) \<or> (192 \<le> n \<and> n \<le> 222 \<and> n \<noteq> 215)
      then char_of (n + 32) else c)"

definition lower :: "string \<Rightarrow> string" where
  "lower s = map lower_char s"

record inconsistency =
  original :: string
  variant :: string
  suggestion :: string

record term_report =
  terms :: "(string \<times> string) list"
  inconsistencies :: "inconsistency list"

text \<open>A \<open>for\<close> loop over a list whose body may raise: the first error ends it.\<close>

fun for_each :: "('s \<Rightarrow> 'a \<Rightarrow> py_error + 's) \<Rightarrow> 'a list \<Rightarrow> 's \<Rightarrow> py_error + 's" where
  "for_each f [] st = Inr st"
| "for_each f (x # xs) st =
     (case f st x of Inl e \<Rightarrow> Inl e | Inr st' \<Rightarrow> for_each f xs st')"

text \<open>
  The four patterns \<open>\\textit\{([^}]*)\}\<close>, \<open>\\textbf\{([^}]*)\}\<close>,
  \<open>\\term\{([^}]*)\}\<close>, \<open>\\cite\{([^}]*)\}\<close>, in the order of the source's list.
\<close>

definition term_patterns :: "(string \<Rightarrow> (string \<times> string) option) list" where
  "term_patterns =
     [braced (CHR 0x5C # ''textit{''),
      braced (CHR 0x5C # ''textbf{''),
      braced (CHR 0x5C # ''term{''),
      braced (CHR 0x5C # ''cite{'')]"

text \<open>
  The body of the inner loop, on the state \<open>(found_terms, inconsistencies)\<close>.
\<close>

definition term_step ::
  "(string \<times> string) list \<times> inconsistency list \<Rightarrow> string \<Rightarrow>
   py_error + ((string \<times> string) list \<times> inconsistency list)" where
  "term_step st term =
     (let found_terms = fst st; incs = snd st; term_lower = lower term in
      if term_lower \<in> set (map fst found_terms) then
        (case dict_get found_terms term_lower of
           Inl e \<Rightarrow> Inl e
         | Inr canon \<Rightarrow>
             if canon \<noteq> term \<and> term \<notin> set (map snd found_terms)
             then Inr (found_terms,
                    incs @ [\<lparr>original = canon, variant = term,
                             suggestion = ''Consider using '' @ [CHR 0x27] @ canon @
                                          [CHR 0x27] @ '' consistently''\<rparr>])
             else Inr (found_terms, incs))
      else Inr (found_terms @ [(term_lower, term)], incs))"

definition scan_terms ::
  "string \<Rightarrow> py_error + ((string \<times> string) list \<times> inconsistency list)" where
  "scan_terms text =
     for_each (\<lambda>st pattern. for_each term_step (findall pattern text) st)
       term_patterns ([], [])"

text \<open>
  The global \<open>term_cache\<close> is passed in and returned: the function gives its report and
  the cache as it is after the call.
\<close>

definition check_term_consistency ::
  "string \<Rightarrow> bool \<Rightarrow> (string \<times> string) list \<Rightarrow>
   py_error + (term_report \<times> (string \<times> string) list)" where
  "check_term_consistency text update_cache term_cache =
     (case scan_terms text of
        Inl e \<Rightarrow> Inl e
      | Inr (found_terms, incs) \<Rightarrow>
          Inr (\<lparr>terms = found_terms, inconsistencies = incs\<rparr>,
               if update_cache then found_terms else term_cache))"

text \<open>
  The terms in the order the two nested loops visit them: pattern by pattern, and within
  a pattern in the order of the text.
\<close>

definition extracted_terms :: "string \<Rightarrow> string list" where
  "extracted_terms text = concat (map (\<lambda>pattern. findall pattern text) term_patterns)"

text \<open>
  The loop invariant used for a key \<open>k\<close>: every recorded spelling is one of the
  extracted terms \<open>ts\<close> and is stored under its own lowercase form, and no reported
  variant has the key \<open>k\<close>.
\<close>

definition key_inv :: "string list \<Rightarrow> string \<Rightarrow> (string \<times> string) list \<times> inconsistency list \<Rightarrow> bool" where
  "key_inv ts k st =
     (list_all (\<lambda>(k', t'). t' \<in> set ts \<and> lower t' = k') (fst st) \<and>
      list_all (\<lambda>inc. lower (variant inc) \<noteq> k) (snd st))"

subsection \<open>check_formulas\<close>

text \<open>\<open>\$([^$]+)\$\<close>\<close>

definition inline_pattern :: "string \<Rightarrow> (string \<times> string) option" where
  "inline_pattern s = lit ''$'' s \<bind> greedy_plus (\<lambda>x. x \<noteq> CHR ''$'') (lit ''$'')"

text \<open>\<open>\$\$([^$]+)\$\$\<close>\<close>

definition display_pattern :: "string \<Rightarrow> (string \<times> string) option" where
  "display_pattern s = lit ''$$'' s \<bind> greedy_plus (\<lambda>x. x \<noteq> CHR ''$'') (lit ''$$'')"

text \<open>\<open>\\begin\{equation\}(.*?)\\end\{equation\}\<close> with \<open>re.DOTALL\<close>\<close>

definition equation_pattern :: "string \<Rightarrow> (string \<times> string) option" where
  "equation_pattern s =
     lit (CHR 0x5C # ''begin{equation}'') s \<bind>
     lazy_dot_star (lit (CHR 0x5C # ''end{equation}''))"

text \<open>\<open>\\begin\{align\}(.*?)\\end\{align\}\<close> with \<open>re.DOTALL\<close>\<close>

definition align_pattern :: "string \<Rightarrow> (string \<times> string) option" where
  "align_pattern s =
     lit (CHR 0x5C # ''begin{align}'') s \<bind>
     lazy_dot_star (lit (CHR 0x5C # ''end{align}''))"

text \<open>\<open>str(n)\<close> for a natural number: its decimal digits.\<close>

definition digit_char :: "nat \<Rightarrow> char" where
  "digit_char d = char_of (48 + d)"

function str_nat :: "nat \<Rightarrow> string" where
  "str_nat n = (if n < 10 then [digit_char n] else str_nat (n div 10) @ [digit_char (n mod 10)])"
  by pat_completeness auto
termination
  by (relation "measure id") auto

declare str_nat.simps [simp del]

record formula_report =
  formulas :: "(string \<times> string list) list"
  errors :: "string list"
  suggestions :: "string list"

text \<open>The two checks of one formula, in the order of the loop body.\<close>

definition formula_checks :: "string \<Rightarrow> nat \<Rightarrow> string \<Rightarrow> string list" where
  "formula_checks formula_type idx formula =
     (if count_list formula CHR ''('' \<noteq> count_list formula CHR '')''
      then [formula_type @ '' formula #'' @ str_nat (idx + 1) @
            '' has mismatched parentheses'']
      else []) @
     (if CHR 0x5C \<notin> set formula \<and> list_ex (\<lambda>c. c \<in> set formula) ''_^&%''
      then [formula_type @ '' formula #'' @ str_nat (idx + 1) @
            '' may have unescaped special characters'']
      else [])"

definition check_formulas :: "string \<Rightarrow> formula_report" where
  "check_formulas text =
     (let inline_formulas = findall inline_pattern text;
          display_formulas = findall display_pattern text;
          equation_formulas = findall equation_pattern text;
          align_formulas = findall align_pattern text;
          all_formulas =
            [(''inline'', inline_formulas),
             (''display'', display_formulas),
             (''equation'', equation_formulas),
             (''align'', align_formulas)];
          common_errors =
            concat (map (\<lambda>(formula_type, fs).
              concat (map (\<lambda>(idx, formula). formula_checks formula_type idx formula)
                (enumerate 0 fs))) all_formulas);
          suggestions =
            (if length align_formulas > 0
             then [''Consider using '' @ [CHR 0x5C] @
                   ''label{} for important equations to reference them later'']
             else [])
      in \<lparr>formulas = all_formulas, errors = common_errors, suggestions = suggestions\<rparr>)"




subsection \<open>analyze_citations\<close>

text \<open>\<open>s.split(',')\<close>: the pieces between the separators; always at least one piece.\<close>

fun split_on :: "char \<Rightarrow> string \<Rightarrow> string list" where
  "split_on sep [] = [[]]"
| "split_on sep (c # cs) =
     (if c = sep then [] # split_on sep cs
      else (case split_on sep cs of
              w # ws \<Rightarrow> (c # w) # ws
            | [] \<Rightarrow> [[c]]))"

text \<open>
  \<open>str.strip()\<close> removes the white space at both ends; on code points 0..255 the white
  space is 9..13, 28..32, 0x85 and 0xA0.
\<close>

definition is_space :: "char \<Rightarrow> bool" where
  "is_space c =
     (let n = (of_char c :: nat) in
      (9 \<le> n \<and> n \<le> 13) \<or> (28 \<le> n \<and> n \<le> 32) \<or> n = 133 \<or> n = 160)"

definition strip :: "string \<Rightarrow> string" where
  "strip s = rev (dropWhile is_space (rev (dropWhile is_space s)))"

text \<open>
  \<open>list(set(citations))\<close> has the distinct keys in an order Python does not fix; the
  field is kept as the set.
\<close>

record citation_report =
  citation_count :: nat
  citations :: "string set"
  bibliography_count :: nat
  unused_references :: "string list"
  missing_references :: "string list"

definition analyze_citations :: "string \<Rightarrow> citation_report" where
  "analyze_citations text =
     (let cites0 = findall (braced (CHR 0x5C # ''cite{'')) text;
          cites1 = map (split_on CHR '','') cites0;
          cites = concat (map (map strip) cites1);
          bibliography = findall (braced (CHR 0x5C # ''bibitem{'')) text;
          unused_refs = filter (\<lambda>ref. ref \<notin> set cites) bibliography;
          missing_refs = filter (\<lambda>cite. cite \<notin> set bibliography) cites
      in \<lparr>citation_count = card (set cites),
          citations = set cites,
          bibliography_count = length bibliography,
          unused_references = unused_refs,
          missing_references = missing_refs\<rparr>)"

subsection \<open>Markup that is present in a text\<close>

text \<open>All the tails of a list, and all the ways to cut it in two.\<close>

fun tails :: "'a list \<Rightarrow> 'a list list" where
  "tails [] = [[]]"
| "tails (x # xs) = (x # xs) # tails xs"

fun splits :: "'a list \<Rightarrow> ('a list \<times> 'a list) list" where
  "splits [] = [([], [])]"
| "splits (x # xs) = ([], x # xs) # map (\<lambda>(a, b). (x # a, b)) (splits xs)"

text \<open>
  \<open>marked opening ok closing text\<close>: somewhere in the text stands the literal
  \<open>opening\<close>, then a body that satisfies \<open>ok\<close>, then the literal \<open>closing\<close>. It is
  computed by trying every position and every length of the body.
\<close>

definition marked :: "string \<Rightarrow> (string \<Rightarrow> bool) \<Rightarrow> string \<Rightarrow> string \<Rightarrow> bool" where
  "marked opening ok closing text =
     list_ex (\<lambda>u. case lit opening u of
                   None \<Rightarrow> False
                 | Some b \<Rightarrow> list_ex (\<lambda>(g, r). ok g \<and> starts_with closing r) (splits b))
       (tails text)"

text \<open>The bodies a marker admits: any text, or a non-empty text without a dollar sign.\<close>

definition any_body :: "string \<Rightarrow> bool" where
  "any_body g = True"

definition dollar_free :: "string \<Rightarrow> bool" where
  "dollar_free g = (g \<noteq> [] \<and> CHR ''$'' \<notin> set g)"

text \<open>The literals that open and close the two environments.\<close>

abbreviation begin_equation :: string where
  "begin_equation \<equiv> CHR 0x5C # ''begin{equation}''"

abbreviation end_equation :: string where
  "end_equation \<equiv> CHR 0x5C # ''end{equation}''"

abbreviation begin_align :: string where
  "begin_align \<equiv> CHR 0x5C # ''begin{align}''"

abbreviation end_align :: string where
  "end_align \<equiv> CHR 0x5C # ''end{align}''"

section \<open>Properties\<close>

subsection \<open>The combinators\<close>

lemma lit_Some_iff: "lit l s = Some r \<longleftrightarrow> s = l @ r"
  by (induction l s rule: lit.induct) auto

lemma starts_with_iff: "starts_with l s \<longleftrightarrow> (\<exists>r. s = l @ r)"
  by (simp add: starts_with_def lit_Some_iff [symmetric])

lemma lit_append [simp]: "lit l (l @ r) = Some r"
  by (simp add: lit_Some_iff)

lemma greedy_star_SomeD:
  "greedy_star p k s = Some (g, a) \<Longrightarrow> \<exists>r. s = g @ r \<and> k r = Some a"
  by (induction s arbitrary: g) (auto split: if_splits option.splits)

lemma greedy_plus_SomeD:
  "greedy_plus p k s = Some (g, a) \<Longrightarrow> \<exists>r. s = g @ r \<and> g \<noteq> [] \<and> k r = Some a"
  by (cases s) (auto split: if_splits dest: greedy_star_SomeD)

lemma lazy_dot_star_SomeD:
  "lazy_dot_star k s = Some (g, a) \<Longrightarrow> \<exists>r. s = g @ r \<and> k r = Some a"
  by (induction s arbitrary: g) (auto split: if_splits option.splits)

lemma greedy_star_closed:
  assumes k: "\<And>x r. x \<noteq> c \<Longrightarrow> k (x # r) = None" and t: "c \<notin> set t"
  shows "greedy_star (\<lambda>x. x \<noteq> c) k (t @ c # rest) = map_option (Pair t) (k (c # rest))"
  using t
proof (induction t)
  case Nil
  show ?case by simp
next
  case (Cons x t)
  have "k (x # t @ c # rest) = None" using k [of x] Cons.prems by auto
  with Cons show ?case by (cases "k (c # rest)") auto
qed

lemma greedy_star_unclosed:
  assumes k0: "k [] = None" and k: "\<And>x r. x \<noteq> c \<Longrightarrow> k (x # r) = None"
    and s: "c \<notin> set s"
  shows "greedy_star (\<lambda>x. x \<noteq> c) k s = None"
  using s
proof (induction s)
  case Nil
  show ?case using k0 by simp
next
  case (Cons x s)
  have "k (x # s) = None" using k [of x] Cons.prems by auto
  with Cons show ?case by auto
qed

lemma finditer_skip:
  assumes "\<And>u v. x = v @ u \<Longrightarrow> u \<noteq> [] \<Longrightarrow> m (u @ y) = None"
  shows "finditer m i (x @ y) = finditer m (i + length x) y"
  using assms
proof (induction x arbitrary: i)
  case Nil
  show ?case by simp
next
  case (Cons c x)
  have "m ((c # x) @ y) = None" using Cons.prems [of "[]" "c # x"] by simp
  moreover have "finditer m (Suc i) (x @ y) = finditer m (Suc i + length x) y"
  proof (rule Cons.IH)
    fix u v assume "x = v @ u" "u \<noteq> []"
    then show "m (u @ y) = None" using Cons.prems [of "c # v" u] by simp
  qed
  ultimately show ?case by simp
qed

lemma finditer_no_match:
  assumes "\<And>u v. s = v @ u \<Longrightarrow> m u = None"
  shows "finditer m i s = []"
proof -
  have "finditer m i (s @ []) = finditer m (i + length s) []"
    by (rule finditer_skip) (use assms in auto)
  moreover have "m [] = None" using assms [of s "[]"] by simp
  ultimately show ?thesis by simp
qed

lemma finditer_match:
  assumes "m (u @ r) = Some (g, r)" and "u \<noteq> []"
  shows "finditer m i (u @ r) =
           \<lparr>m_start = i, m_end = i + length u, m_groups = g\<rparr> # finditer m (i + length u) r"
  using assms by (cases u) auto

subsection \<open>The loop of the term checker\<close>

lemma for_each_append:
  "for_each f (xs @ ys) st =
     (case for_each f xs st of Inl e \<Rightarrow> Inl e | Inr st' \<Rightarrow> for_each f ys st')"
  by (induction xs arbitrary: st) (auto split: sum.splits)

lemma for_each_concat:
  "for_each (\<lambda>st p. for_each f (g p) st) ps st = for_each f (concat (map g ps)) st"
  by (induction ps arbitrary: st) (auto simp: for_each_append split: sum.splits)

lemma scan_terms_flat: "scan_terms text = for_each term_step (extracted_terms text) ([], [])"
  by (simp add: scan_terms_def extracted_terms_def for_each_concat)

lemma for_each_total:
  assumes "\<And>s x. \<exists>s'. f s x = Inr s'"
  shows "\<exists>st'. for_each f xs st = Inr st'"
proof (induction xs arbitrary: st)
  case Nil
  show ?case by simp
next
  case (Cons x xs)
  obtain s' where "f st x = Inr s'" using assms by blast
  with Cons show ?case by simp
qed

lemma for_each_invariant:
  assumes "for_each f xs st = Inr st'" and "P st"
    and "\<And>s x s'. x \<in> set xs \<Longrightarrow> P s \<Longrightarrow> f s x = Inr s' \<Longrightarrow> P s'"
  shows "P st'"
  using assms
proof (induction xs arbitrary: st)
  case Nil
  then show ?case by simp
next
  case (Cons x xs)
  from Cons.prems(1) obtain s1 where s1: "f st x = Inr s1" and rest: "for_each f xs s1 = Inr st'"
    by (auto split: sum.splits)
  have "P s1" using Cons.prems(3) [of x st s1] Cons.prems(2) s1 by simp
  show ?case
  proof (rule Cons.IH [OF rest \<open>P s1\<close>])
    fix s y s' assume "y \<in> set xs" "P s" "f s y = Inr s'"
    then show "P s'" using Cons.prems(3) [of y s s'] by simp
  qed
qed

lemma dict_get_present:
  "k \<in> set (map fst d) \<Longrightarrow> \<exists>v. dict_get d k = Inr v \<and> (k, v) \<in> set d"
proof -
  assume "k \<in> set (map fst d)"
  then have "map_of d k \<noteq> None" by (simp add: map_of_eq_None_iff)
  then obtain v where "map_of d k = Some v" by blast
  then show ?thesis by (auto simp: dict_get_def dest: map_of_SomeD)
qed

lemma term_step_total: "\<exists>st'. term_step st t = Inr st'"
proof (cases "lower t \<in> set (map fst (fst st))")
  case True
  from dict_get_present [OF True]
  obtain v where "dict_get (fst st) (lower t) = Inr v" by blast
  with True show ?thesis by (simp add: term_step_def Let_def)
next
  case False
  then show ?thesis by (simp add: term_step_def Let_def)
qed

lemma scan_terms_total: "\<exists>found incs. scan_terms text = Inr (found, incs)"
proof -
  obtain st' where "for_each term_step (extracted_terms text) ([], []) = Inr st'"
    using for_each_total [of term_step, OF term_step_total] by blast
  then show ?thesis by (cases st') (simp add: scan_terms_flat)
qed

lemma key_inv_step:
  assumes same: "\<And>t t'. t \<in> set ts \<Longrightarrow> t' \<in> set ts \<Longrightarrow> lower t = k \<Longrightarrow> lower t' = k \<Longrightarrow> t = t'"
    and x: "x \<in> set ts" and inv: "key_inv ts k st" and step: "term_step st x = Inr st'"
  shows "key_inv ts k st'"
proof (cases "lower x \<in> set (map fst (fst st))")
  case False
  with step have "st' = (fst st @ [(lower x, x)], snd st)"
    by (simp add: term_step_def Let_def)
  with inv x show ?thesis by (simp add: key_inv_def)
next
  case True
  from dict_get_present [OF True]
  obtain v where v: "dict_get (fst st) (lower x) = Inr v" and mem: "(lower x, v) \<in> set (fst st)"
    by blast
  from inv mem have vin: "v \<in> set ts" and vlow: "lower v = lower x"
    by (auto simp: key_inv_def list_all_iff)
  define inc where "inc = \<lparr>original = v, variant = x,
      suggestion = ''Consider using '' @ [CHR 0x27] @ v @ [CHR 0x27] @ '' consistently''\<rparr>"
  have eq_emit: "v \<noteq> x \<and> x \<notin> set (map snd (fst st)) \<Longrightarrow>
      term_step st x = Inr (fst st, snd st @ [inc])"
    using True v by (simp add: term_step_def Let_def inc_def)
  have eq_keep: "\<not> (v \<noteq> x \<and> x \<notin> set (map snd (fst st))) \<Longrightarrow>
      term_step st x = Inr (fst st, snd st)"
    using True v by (auto simp: term_step_def Let_def)
  show ?thesis
  proof (cases "v \<noteq> x \<and> x \<notin> set (map snd (fst st))")
    case False
    from eq_keep [OF False] step have "st' = st" by simp
    with inv show ?thesis by simp
  next
    case emit: True
    have "lower x \<noteq> k"
    proof
      assume "lower x = k"
      then have "v = x" using same [OF vin x] vlow by simp
      with emit show False by simp
    qed
    moreover from eq_emit [OF emit] step have "st' = (fst st, snd st @ [inc])"
      by simp
    moreover have "variant inc = x" by (simp add: inc_def)
    ultimately show ?thesis using inv by (simp add: key_inv_def)
  qed
qed

lemma scan_terms_key:
  assumes same: "\<And>t t'. t \<in> set (extracted_terms text) \<Longrightarrow> t' \<in> set (extracted_terms text) \<Longrightarrow>
      lower t = k \<Longrightarrow> lower t' = k \<Longrightarrow> t = t'"
    and scan: "scan_terms text = Inr (found, incs)"
  shows "list_all (\<lambda>inc. lower (variant inc) \<noteq> k) incs"
proof -
  have "key_inv (extracted_terms text) k (found, incs)"
  proof (rule for_each_invariant [where P = "key_inv (extracted_terms text) k"])
    show "for_each term_step (extracted_terms text) ([], []) = Inr (found, incs)"
      using scan by (simp add: scan_terms_flat)
    show "key_inv (extracted_terms text) k ([], [])" by (simp add: key_inv_def)
  next
    fix s x s'
    assume "x \<in> set (extracted_terms text)" "key_inv (extracted_terms text) k s" "term_step s x = Inr s'"
    then show "key_inv (extracted_terms text) k s'" using key_inv_step [OF same] by blast
  qed
  then show ?thesis by (simp add: key_inv_def)
qed

subsection \<open>The passthrough helpers\<close>

text \<open>
  C3, as the claim states it, fails for \<open>optimize_equation\<close>: the function has no
  parameter and returns \<open>None\<close>, so there is no input it could hand back and no
  instruction beside it.
\<close>

theorem optimize_equation_returns_nothing: "optimize_equation () = None"
  by (simp add: optimize_equation_def)

text \<open>
  C3 (amended): \<open>rewrite_paragraph\<close> returns its three inputs verbatim together with an
  instruction that is the same for every input, and computes no rewritten text;
  \<open>optimize_equation\<close> takes no input and returns nothing.
\<close>

theorem rewrite_paragraph_passthrough:
  "rp_paragraph (rewrite_paragraph p c s) = p \<and>
   rp_context (rewrite_paragraph p c s) = c \<and>
   rp_style (rewrite_paragraph p c s) = s \<and>
   rp_instruction (rewrite_paragraph p c s) = rp_instruction (rewrite_paragraph p' c' s') \<and>
   length (rp_instruction (rewrite_paragraph p c s)) = 39 \<and>
   optimize_equation u = None"
  by (simp add: rewrite_paragraph_def rewrite_instruction_def optimize_equation_def)

subsection \<open>The term checker on concrete texts\<close>

text \<open>
  C9: the canonical spelling follows the order of the pattern list, not the order of the
  text. In \<open>\textbf{Foo} \textit{foo}\<close> the bold spelling comes first in the text (its
  match starts at position 0, the emphasis match at 13), yet the emphasis spelling
  \<open>foo\<close> is recorded as canonical and the bold one is reported as the variant.
\<close>

theorem canonical_follows_pattern_order:
  "finditer (braced (CHR 0x5C # ''textbf{'')) 0
     (CHR 0x5C # ''textbf{Foo} '' @ CHR 0x5C # ''textit{foo}'') =
     [\<lparr>m_start = 0, m_end = 12, m_groups = ''Foo''\<rparr>] \<and>
   finditer (braced (CHR 0x5C # ''textit{'')) 0
     (CHR 0x5C # ''textbf{Foo} '' @ CHR 0x5C # ''textit{foo}'') =
     [\<lparr>m_start = 13, m_end = 25, m_groups = ''foo''\<rparr>] \<and>
   check_term_consistency
     (CHR 0x5C # ''textbf{Foo} '' @ CHR 0x5C # ''textit{foo}'') False cache =
   Inr (\<lparr>terms = [(''foo'', ''foo'')],
         inconsistencies =
           [\<lparr>original = ''foo'', variant = ''Foo'',
             suggestion = ''Consider using '' @ [CHR 0x27] @ ''foo'' @ [CHR 0x27] @
                          '' consistently''\<rparr>]\<rparr>,
        cache)"
  by code_simp

text \<open>
  C10: repeated variants are not suppressed. In \<open>\term{Foo}\term{foo}\term{foo}\<close> the
  variant \<open>foo\<close> occurs twice after \<open>Foo\<close> became canonical, and the report holds two
  identical entries.
\<close>

theorem duplicate_variants_reported_twice:
  "check_term_consistency
     (CHR 0x5C # ''term{Foo}'' @ CHR 0x5C # ''term{foo}'' @ CHR 0x5C # ''term{foo}'')
     False cache =
   Inr (\<lparr>terms = [(''foo'', ''Foo'')],
         inconsistencies =
           [\<lparr>original = ''Foo'', variant = ''foo'',
             suggestion = ''Consider using '' @ [CHR 0x27] @ ''Foo'' @ [CHR 0x27] @
                          '' consistently''\<rparr>,
            \<lparr>original = ''Foo'', variant = ''foo'',
             suggestion = ''Consider using '' @ [CHR 0x27] @ ''Foo'' @ [CHR 0x27] @
                          '' consistently''\<rparr>]\<rparr>,
        cache)"
  by code_simp

subsection \<open>One spelling per key, and the cache\<close>

lemma term_example:
  "check_term_consistency (CHR 0x5C # ''term{Foo} ... '' @ CHR 0x5C # ''term{foo}'') False cache0 =
   Inr (\<lparr>terms = [(''foo'', ''Foo'')],
         inconsistencies =
           [\<lparr>original = ''Foo'', variant = ''foo'',
             suggestion = ''Consider using '' @ [CHR 0x27] @ ''Foo'' @ [CHR 0x27] @
                          '' consistently''\<rparr>]\<rparr>,
        cache0)"
  by code_simp

lemma check_one_spelling:
  assumes "\<forall>t \<in> set (extracted_terms text). \<forall>t' \<in> set (extracted_terms text).
             lower t = k \<and> lower t' = k \<longrightarrow> t = t'"
  shows "\<exists>r cache'. check_term_consistency text upd cache = Inr (r, cache') \<and>
           list_all (\<lambda>inc. lower (variant inc) \<noteq> k) (inconsistencies r)"
proof -
  obtain found incs where scan: "scan_terms text = Inr (found, incs)"
    using scan_terms_total by blast
  have "list_all (\<lambda>inc. lower (variant inc) \<noteq> k) incs"
  proof (rule scan_terms_key [OF _ scan])
    fix t t'
    assume "t \<in> set (extracted_terms text)" "t' \<in> set (extracted_terms text)"
      "lower t = k" "lower t' = k"
    with assms show "t = t'" by blast
  qed
  with scan show ?thesis by (simp add: check_term_consistency_def)
qed

lemma same_casing_terms:
  "extracted_terms (CHR 0x5C # ''term{Foo} ... '' @ CHR 0x5C # ''term{Foo}'') = [''Foo'', ''Foo'']"
  by code_simp

text \<open>
  C5: on the text \<open>\term{Foo} ... \term{foo}\<close> without a cache update the checker
  returns exactly one inconsistency, with original \<open>Foo\<close> and variant \<open>foo\<close>. And for
  every text and key \<open>k\<close>: when all the extracted terms whose lowercase form is \<open>k\<close> are
  spelled alike, the checker returns and none of the inconsistencies it reports is for
  \<open>k\<close>.
\<close>

theorem term_check_one_spelling_per_key:
  "check_term_consistency (CHR 0x5C # ''term{Foo} ... '' @ CHR 0x5C # ''term{foo}'') False cache0 =
   Inr (\<lparr>terms = [(''foo'', ''Foo'')],
         inconsistencies =
           [\<lparr>original = ''Foo'', variant = ''foo'',
             suggestion = ''Consider using '' @ [CHR 0x27] @ ''Foo'' @ [CHR 0x27] @
                          '' consistently''\<rparr>]\<rparr>,
        cache0) \<and>
   ((\<forall>t \<in> set (extracted_terms text). \<forall>t' \<in> set (extracted_terms text).
       lower t = k \<and> lower t' = k \<longrightarrow> t = t') \<longrightarrow>
    (\<exists>r cache'. check_term_consistency text upd cache = Inr (r, cache') \<and>
       list_all (\<lambda>inc. lower (variant inc) \<noteq> k) (inconsistencies r)))"
  using term_example check_one_spelling by blast

text \<open>
  The general part at \<open>\term{Foo} ... \term{Foo}\<close> and the key \<open>foo\<close>: both
  occurrences are spelled \<open>Foo\<close>, and nothing is reported for the key.
\<close>

theorem term_check_one_spelling_per_key_witness:
  "extracted_terms (CHR 0x5C # ''term{Foo} ... '' @ CHR 0x5C # ''term{Foo}'') = [''Foo'', ''Foo''] \<and>
   (\<exists>r cache'.
      check_term_consistency (CHR 0x5C # ''term{Foo} ... '' @ CHR 0x5C # ''term{Foo}'') False [] =
        Inr (r, cache') \<and>
      list_all (\<lambda>inc. lower (variant inc) \<noteq> ''foo'') (inconsistencies r))"
proof -
  let ?ex = "CHR 0x5C # ''term{Foo} ... '' @ CHR 0x5C # ''term{Foo}''"
  have hyp: "\<forall>t \<in> set (extracted_terms ?ex). \<forall>t' \<in> set (extracted_terms ?ex).
      lower t = ''foo'' \<and> lower t' = ''foo'' \<longrightarrow> t = t'"
    unfolding same_casing_terms by simp
  from term_check_one_spelling_per_key [of _ ?ex "''foo''" False "[]"] hyp
  show ?thesis using same_casing_terms by blast
qed

text \<open>
  C6: a call with \<open>update_cache = True\<close> returns and leaves the cache equal to the table
  \<open>terms\<close> of its report, whatever the cache held before; that table is the one the same
  text gives without an update, where the cache is left as it was.
\<close>

theorem cache_overwritten_by_local_table:
  "\<exists>r. (\<forall>cache. check_term_consistency text True cache = Inr (r, terms r)) \<and>
        (\<forall>cache. check_term_consistency text False cache = Inr (r, cache))"
proof -
  obtain found incs where scan: "scan_terms text = Inr (found, incs)"
    using scan_terms_total by blast
  let ?r = "\<lparr>terms = found, inconsistencies = incs\<rparr>"
  have "\<forall>cache. check_term_consistency text True cache = Inr (?r, terms ?r)"
    using scan by (simp add: check_term_consistency_def)
  moreover have "\<forall>cache. check_term_consistency text False cache = Inr (?r, cache)"
    using scan by (simp add: check_term_consistency_def)
  ultimately show ?thesis by blast
qed

subsection \<open>The formula validator: parentheses\<close>

lemma paren_example:
  "check_formulas ''$(a+b$'' =
     \<lparr>formulas = [(''inline'', [''(a+b'']), (''display'', []), (''equation'', []), (''align'', [])],
      errors = [''inline formula #1 has mismatched parentheses''],
      suggestions = []\<rparr>"
  by code_simp

lemma errors_unfold:
  "errors (check_formulas text) =
     concat (map (\<lambda>(formula_type, fs).
       concat (map (\<lambda>(idx, formula). formula_checks formula_type idx formula) (enumerate 0 fs)))
       (formulas (check_formulas text)))"
  by (simp add: check_formulas_def Let_def)

lemma mismatch_in_checks:
  "count_list formula CHR ''('' \<noteq> count_list formula CHR '')'' \<Longrightarrow>
   formula_type @ '' formula #'' @ str_nat (idx + 1) @ '' has mismatched parentheses''
     \<in> set (formula_checks formula_type idx formula)"
  by (simp add: formula_checks_def)

lemma mismatch_reported:
  assumes "(formula_type, fs) \<in> set (formulas (check_formulas text))"
    and "idx < length fs"
    and "count_list (fs ! idx) CHR ''('' \<noteq> count_list (fs ! idx) CHR '')''"
  shows "formula_type @ '' formula #'' @ str_nat (idx + 1) @ '' has mismatched parentheses''
           \<in> set (errors (check_formulas text))"
proof -
  have "(idx, fs ! idx) \<in> set (enumerate 0 fs)"
    using assms(2) by (simp add: in_set_enumerate_eq)
  with mismatch_in_checks [OF assms(3), of formula_type idx] assms(1)
  show ?thesis unfolding errors_unfold by fastforce
qed

text \<open>
  C7: on \<open>$(a+b$\<close> the validator extracts the inline formula \<open>(a+b\<close> (one open, no
  close parenthesis) and its errors are the diagnostic for category inline, index 1.
  In general, for every formula at position \<open>idx\<close> of a category's list whose counts of
  open and close parentheses differ, the string
  "<category> formula #<idx+1> has mismatched parentheses" is among the errors.
\<close>

theorem mismatched_parentheses_reported:
  "check_formulas ''$(a+b$'' =
     \<lparr>formulas = [(''inline'', [''(a+b'']), (''display'', []), (''equation'', []), (''align'', [])],
      errors = [''inline formula #1 has mismatched parentheses''],
      suggestions = []\<rparr> \<and>
   ((formula_type, fs) \<in> set (formulas (check_formulas text)) \<and> idx < length fs \<and>
    count_list (fs ! idx) CHR ''('' \<noteq> count_list (fs ! idx) CHR '')'' \<longrightarrow>
    formula_type @ '' formula #'' @ str_nat (idx + 1) @ '' has mismatched parentheses''
      \<in> set (errors (check_formulas text)))"
  using paren_example mismatch_reported by blast

lemma display_paren_formulas:
  "formulas (check_formulas ''$$(x$$'') =
     [(''inline'', [''(x'']), (''display'', [''(x'']), (''equation'', []), (''align'', [])]"
  by code_simp

lemma str_nat_one: "str_nat (0 + 1) = ''1''"
  by code_simp

text \<open>
  The general part at the display formula of \<open>$$(x$$\<close>, category display, position 0.
\<close>

theorem mismatched_parentheses_reported_witness:
  "formulas (check_formulas ''$$(x$$'') =
     [(''inline'', [''(x'']), (''display'', [''(x'']), (''equation'', []), (''align'', [])] \<and>
   ''display formula #1 has mismatched parentheses'' \<in> set (errors (check_formulas ''$$(x$$''))"
proof -
  have mem: "(''display'', [''(x'']) \<in> set (formulas (check_formulas ''$$(x$$''))"
    unfolding display_paren_formulas by simp
  have cnt: "count_list ([''(x''] ! 0) CHR ''('' \<noteq> count_list ([''(x''] ! 0) CHR '')''"
    by simp
  have "''display'' @ '' formula #'' @ str_nat (0 + 1) @ '' has mismatched parentheses''
          \<in> set (errors (check_formulas ''$$(x$$''))"
    using mismatched_parentheses_reported [of "''display''" "[''(x'']" "''$$(x$$''" 0] mem cnt
    by simp
  then show ?thesis unfolding str_nat_one using display_paren_formulas by simp
qed

subsection \<open>The citation analyzer on repeated keys\<close>

text \<open>
  C2 fails on repeated keys. With the bibliography entry \<open>a\<close> declared twice,
  \<open>bibliography_count\<close> is 2 (the length of the list, not the number of distinct keys)
  and \<open>unused_references\<close> lists \<open>a\<close> twice. With the missing key \<open>x\<close> cited twice,
  \<open>missing_references\<close> lists \<open>x\<close> twice, while \<open>citation_count\<close> and \<open>citations\<close>
  are deduplicated.
\<close>

theorem duplicate_keys_not_deduplicated:
  "analyze_citations (CHR 0x5C # ''bibitem{a}'' @ CHR 0x5C # ''bibitem{a}'') =
     \<lparr>citation_count = 0, citations = {}, bibliography_count = 2,
      unused_references = [''a'', ''a''], missing_references = []\<rparr> \<and>
   analyze_citations (CHR 0x5C # ''cite{x}'' @ CHR 0x5C # ''cite{x}'') =
     \<lparr>citation_count = 1, citations = {''x''}, bibliography_count = 0,
      unused_references = [], missing_references = [''x'', ''x'']\<rparr>"
  by code_simp

text \<open>
  What does hold for every text: read as sets, the two lists are the two differences of
  the bibliography keys and the cited keys, and \<open>citation_count\<close> counts the distinct
  cited keys; \<open>bibliography_count\<close> is the length of the list of bibliography keys.
\<close>

theorem citation_differences_as_sets:
  "set (unused_references (analyze_citations text)) =
     set (findall (braced (CHR 0x5C # ''bibitem{'')) text) - citations (analyze_citations text) \<and>
   set (missing_references (analyze_citations text)) =
     citations (analyze_citations text) - set (findall (braced (CHR 0x5C # ''bibitem{'')) text) \<and>
   citation_count (analyze_citations text) = card (citations (analyze_citations text)) \<and>
   bibliography_count (analyze_citations text) =
     length (findall (braced (CHR 0x5C # ''bibitem{'')) text)"
  by (auto simp: analyze_citations_def Let_def)

subsection \<open>Texts without markup, and totality\<close>

lemma lit_first_absent: "c \<notin> set s \<Longrightarrow> lit (c # l) s = None"
  by (cases s) auto

lemma finditer_first_absent:
  assumes m: "\<And>u. c \<notin> set u \<Longrightarrow> m u = None" and c: "c \<notin> set text"
  shows "finditer m i text = []"
proof (rule finditer_no_match)
  fix u v assume "text = v @ u"
  with c have "c \<notin> set u" by simp
  then show "m u = None" by (rule m)
qed

lemma findall_first_absent:
  assumes "\<And>u. c \<notin> set u \<Longrightarrow> m u = None" and "c \<notin> set text"
  shows "findall m text = []"
  using finditer_first_absent [OF assms] by (simp add: findall_def)

lemma braced_no_backslash: "CHR 0x5C \<notin> set u \<Longrightarrow> braced (CHR 0x5C # l) u = None"
  by (simp add: braced_def lit_first_absent)

lemma section_no_backslash: "CHR 0x5C \<notin> set u \<Longrightarrow> section_pattern u = None"
  by (simp add: section_pattern_def lit_first_absent)

lemma equation_no_backslash: "CHR 0x5C \<notin> set u \<Longrightarrow> equation_pattern u = None"
  by (simp add: equation_pattern_def lit_first_absent)

lemma align_no_backslash: "CHR 0x5C \<notin> set u \<Longrightarrow> align_pattern u = None"
  by (simp add: align_pattern_def lit_first_absent)

lemma inline_no_dollar: "CHR ''$'' \<notin> set u \<Longrightarrow> inline_pattern u = None"
  by (simp add: inline_pattern_def lit_first_absent)

lemma display_no_dollar: "CHR ''$'' \<notin> set u \<Longrightarrow> display_pattern u = None"
  by (simp add: display_pattern_def lit_first_absent)

lemma scan_terms_empty:
  assumes "\<And>p. p \<in> set term_patterns \<Longrightarrow> findall p text = []"
  shows "scan_terms text = Inr ([], [])"
proof -
  have "extracted_terms text = []"
    using assms by (simp add: extracted_terms_def)
  then show ?thesis by (simp add: scan_terms_flat)
qed

lemma check_formulas_empty:
  assumes "findall inline_pattern text = []" "findall display_pattern text = []"
    "findall equation_pattern text = []" "findall align_pattern text = []"
  shows "check_formulas text =
     \<lparr>formulas = [(''inline'', []), (''display'', []), (''equation'', []), (''align'', [])],
      errors = [], suggestions = []\<rparr>"
  using assms by (simp add: check_formulas_def enumerate_eq_zip)

lemma analyze_citations_empty:
  assumes "findall (braced (CHR 0x5C # ''cite{'')) text = []"
    "findall (braced (CHR 0x5C # ''bibitem{'')) text = []"
  shows "analyze_citations text =
     \<lparr>citation_count = 0, citations = {}, bibliography_count = 0,
      unused_references = [], missing_references = []\<rparr>"
  using assms by (simp add: analyze_citations_def)

lemma read_text_empty:
  assumes "findall section_pattern text = []"
  shows "read_text text = \<lparr>sections = [], doc_content = text\<rparr>"
  using assms by (simp add: read_text_def)

text \<open>A text with no backslash and no dollar sign has no markup at all.\<close>

lemma no_markup:
  assumes bs: "CHR 0x5C \<notin> set text" and dl: "CHR ''$'' \<notin> set text"
  shows "read_text text = \<lparr>sections = [], doc_content = text\<rparr>"
    and "check_term_consistency text upd cache =
           Inr (\<lparr>terms = [], inconsistencies = []\<rparr>, if upd then [] else cache)"
    and "check_formulas text =
           \<lparr>formulas = [(''inline'', []), (''display'', []), (''equation'', []), (''align'', [])],
            errors = [], suggestions = []\<rparr>"
    and "analyze_citations text =
           \<lparr>citation_count = 0, citations = {}, bibliography_count = 0,
            unused_references = [], missing_references = []\<rparr>"
proof -
  have br: "findall (braced (CHR 0x5C # l)) text = []" for l
    by (rule findall_first_absent [OF braced_no_backslash bs])
  show "read_text text = \<lparr>sections = [], doc_content = text\<rparr>"
    by (rule read_text_empty) (rule findall_first_absent [OF section_no_backslash bs])
  have "scan_terms text = Inr ([], [])"
    by (rule scan_terms_empty) (auto simp: term_patterns_def br)
  then show "check_term_consistency text upd cache =
           Inr (\<lparr>terms = [], inconsistencies = []\<rparr>, if upd then [] else cache)"
    by (simp add: check_term_consistency_def)
  show "check_formulas text =
           \<lparr>formulas = [(''inline'', []), (''display'', []), (''equation'', []), (''align'', [])],
            errors = [], suggestions = []\<rparr>"
  proof (rule check_formulas_empty)
    show "findall inline_pattern text = []"
      by (rule findall_first_absent [OF inline_no_dollar dl])
    show "findall display_pattern text = []"
      by (rule findall_first_absent [OF display_no_dollar dl])
    show "findall equation_pattern text = []"
      by (rule findall_first_absent [OF equation_no_backslash bs])
    show "findall align_pattern text = []"
      by (rule findall_first_absent [OF align_no_backslash bs])
  qed
  show "analyze_citations text =
           \<lparr>citation_count = 0, citations = {}, bibliography_count = 0,
            unused_references = [], missing_references = []\<rparr>"
    by (rule analyze_citations_empty) (rule br)+
qed

text \<open>
  Malformed markup: without a closing brace no section, term or citation marker is
  complete.
\<close>

lemma braced_unclosed: "CHR ''}'' \<notin> set u \<Longrightarrow> braced name u = None"
proof (cases "lit name u")
  case None
  then show ?thesis by (simp add: braced_def)
next
  case (Some r)
  assume "CHR ''}'' \<notin> set u"
  with Some have "CHR ''}'' \<notin> set r" by (auto simp: lit_Some_iff)
  then have "greedy_star (\<lambda>x. x \<noteq> CHR ''}'') (lit ''}'') r = None"
    by (intro greedy_star_unclosed) auto
  with Some show ?thesis by (simp add: braced_def)
qed

lemma section_unclosed: "CHR ''}'' \<notin> set u \<Longrightarrow> section_pattern u = None"
proof (cases "lit (CHR 0x5C # ''section{'') u")
  case None
  then show ?thesis by (simp add: section_pattern_def)
next
  case (Some r)
  assume "CHR ''}'' \<notin> set u"
  with Some have "CHR ''}'' \<notin> set r" by (auto simp: lit_Some_iff)
  then have "greedy_star (\<lambda>x. x \<noteq> CHR ''}'') (\<lambda>s1.
          lit ''}'' s1 \<bind>
          lazy_dot_star (lookahead (\<lambda>s2.
            starts_with (CHR 0x5C # ''section{'') s2 \<or> at_dollar s2))) r = None"
    by (intro greedy_star_unclosed) auto
  with Some show ?thesis by (simp add: section_pattern_def)
qed

lemma unclosed:
  assumes cb: "CHR ''}'' \<notin> set text"
  shows "read_text text = \<lparr>sections = [], doc_content = text\<rparr>"
    and "check_term_consistency text upd cache =
           Inr (\<lparr>terms = [], inconsistencies = []\<rparr>, if upd then [] else cache)"
    and "analyze_citations text =
           \<lparr>citation_count = 0, citations = {}, bibliography_count = 0,
            unused_references = [], missing_references = []\<rparr>"
proof -
  have br: "findall (braced name) text = []" for name
    by (rule findall_first_absent [OF braced_unclosed cb])
  show "read_text text = \<lparr>sections = [], doc_content = text\<rparr>"
    by (rule read_text_empty) (rule findall_first_absent [OF section_unclosed cb])
  have "scan_terms text = Inr ([], [])"
    by (rule scan_terms_empty) (auto simp: term_patterns_def br)
  then show "check_term_consistency text upd cache =
           Inr (\<lparr>terms = [], inconsistencies = []\<rparr>, if upd then [] else cache)"
    by (simp add: check_term_consistency_def)
  show "analyze_citations text =
           \<lparr>citation_count = 0, citations = {}, bibliography_count = 0,
            unused_references = [], missing_references = []\<rparr>"
    by (rule analyze_citations_empty) (rule br)+
qed

lemma checker_total: "\<exists>r cache'. check_term_consistency text upd cache = Inr (r, cache')"
proof -
  obtain found incs where "scan_terms text = Inr (found, incs)"
    using scan_terms_total by blast
  then show ?thesis by (simp add: check_term_consistency_def)
qed

lemma set_tails: "set (tails s) = {u. \<exists>v. s = v @ u}"
proof (induction s)
  case Nil
  show ?case by simp
next
  case (Cons x s)
  show ?case
  proof (rule set_eqI)
    fix u
    have "(\<exists>v. x # s = v @ u) \<longleftrightarrow> u = x # s \<or> (\<exists>v. s = v @ u)"
      by (auto simp: Cons_eq_append_conv)
    with Cons show "u \<in> set (tails (x # s)) \<longleftrightarrow> u \<in> {u. \<exists>v. x # s = v @ u}" by simp
  qed
qed

lemma set_splits: "set (splits s) = {(a, b). s = a @ b}"
proof (induction s)
  case Nil
  show ?case by auto
next
  case (Cons x s)
  show ?case
  proof (rule set_eqI)
    fix p :: "'a list \<times> 'a list"
    obtain a b where p: "p = (a, b)" by (cases p)
    have "x # s = a @ b \<longleftrightarrow> (a = [] \<and> b = x # s) \<or> (\<exists>a'. a = x # a' \<and> s = a' @ b)"
      by (auto simp: Cons_eq_append_conv)
    with Cons p show "p \<in> set (splits (x # s)) \<longleftrightarrow> p \<in> {(a, b). x # s = a @ b}"
      by (auto simp: image_iff)
  qed
qed

lemma marked_iff:
  "marked opening ok closing text \<longleftrightarrow>
     (\<exists>a g r. text = a @ opening @ g @ closing @ r \<and> ok g)"
proof
  assume "marked opening ok closing text"
  then obtain u b g r where u: "u \<in> set (tails text)" and b: "lit opening u = Some b"
    and gr: "(g, r) \<in> set (splits b)" and ok: "ok g" and cl: "starts_with closing r"
    by (auto simp: marked_def list_ex_iff split: option.splits)
  from u obtain a where "text = a @ u" by (auto simp: set_tails)
  moreover from b have "u = opening @ b" by (simp add: lit_Some_iff)
  moreover from gr have "b = g @ r" by (simp add: set_splits)
  moreover from cl obtain r' where "r = closing @ r'" by (auto simp: starts_with_iff)
  ultimately have "text = a @ opening @ g @ closing @ r'" by simp
  with ok show "\<exists>a g r. text = a @ opening @ g @ closing @ r \<and> ok g" by blast
next
  assume "\<exists>a g r. text = a @ opening @ g @ closing @ r \<and> ok g"
  then obtain a g r where t: "text = a @ opening @ g @ closing @ r" and ok: "ok g" by blast
  have "opening @ g @ closing @ r \<in> set (tails text)" using t by (auto simp: set_tails)
  moreover have "lit opening (opening @ g @ closing @ r) = Some (g @ closing @ r)" by simp
  moreover have "(g, closing @ r) \<in> set (splits (g @ closing @ r))" by (simp add: set_splits)
  moreover have "starts_with closing (closing @ r)" by (simp add: starts_with_iff)
  ultimately show "marked opening ok closing text"
    using ok unfolding marked_def list_ex_iff by force
qed

lemma finditer_Nil_iff:
  "finditer m i s = [] \<longleftrightarrow> (\<forall>u v. s = v @ u \<longrightarrow> m u = None)"
proof
  assume "\<forall>u v. s = v @ u \<longrightarrow> m u = None"
  then show "finditer m i s = []" by (intro finditer_no_match) blast
next
  assume "finditer m i s = []"
  then show "\<forall>u v. s = v @ u \<longrightarrow> m u = None"
  proof (induction s arbitrary: i)
    case Nil
    then show ?case by (cases "m []") auto
  next
    case (Cons c cs)
    from Cons.prems have none: "m (c # cs) = None" by (cases "m (c # cs)") auto
    with Cons.prems have "finditer m (Suc i) cs = []" by simp
    from Cons.IH [OF this] have ih: "\<forall>u v. cs = v @ u \<longrightarrow> m u = None" .
    show ?case
    proof (intro allI impI)
      fix u v assume "c # cs = v @ u"
      then consider "u = c # cs" | v' where "cs = v' @ u"
        by (auto simp: Cons_eq_append_conv)
      then show "m u = None" using none ih by cases auto
    qed
  qed
qed

lemma findall_Nil_iff_marked:
  assumes m: "\<And>u. m u \<noteq> None \<longleftrightarrow> (\<exists>g r. u = opening @ g @ closing @ r \<and> ok g)"
  shows "findall m text = [] \<longleftrightarrow> \<not> marked opening ok closing text"
proof
  assume empty: "findall m text = []"
  show "\<not> marked opening ok closing text"
  proof
    assume "marked opening ok closing text"
    then obtain a g r where t: "text = a @ opening @ g @ closing @ r" and ok: "ok g"
      unfolding marked_iff by blast
    from ok have "m (opening @ g @ closing @ r) \<noteq> None" unfolding m by blast
    moreover from empty t have "m (opening @ g @ closing @ r) = None"
      unfolding findall_def map_is_Nil_conv finditer_Nil_iff by blast
    ultimately show False by contradiction
  qed
next
  assume no: "\<not> marked opening ok closing text"
  have "finditer m 0 text = []"
  proof (rule finditer_no_match)
    fix u v assume t: "text = v @ u"
    show "m u = None"
    proof (rule ccontr)
      assume "m u \<noteq> None"
      then obtain g r where "u = opening @ g @ closing @ r" and ok: "ok g"
        unfolding m by blast
      with t have "text = v @ opening @ g @ closing @ r" by simp
      with ok have "marked opening ok closing text" unfolding marked_iff by blast
      with no show False by contradiction
    qed
  qed
  then show "findall m text = []" by (simp add: findall_def)
qed

lemma greedy_star_class: "greedy_star p k s = Some (g, a) \<Longrightarrow> list_all p g"
  by (induction s arbitrary: g) (auto split: if_splits option.splits)

lemma lazy_dot_star_end: "k [] \<noteq> None \<Longrightarrow> lazy_dot_star k y \<noteq> None"
  by (induction y) (auto split: option.splits)

lemma lazy_dot_star_reaches: "k y \<noteq> None \<Longrightarrow> lazy_dot_star k (x @ y) \<noteq> None"
proof (induction x)
  case Nil
  then show ?case by (cases y) auto
next
  case (Cons c x)
  then show ?case by (auto split: option.splits)
qed

lemma braced_then_iff:
  assumes K: "\<And>y. K y \<noteq> None"
  shows "(lit mk u \<bind> greedy_star (\<lambda>x. x \<noteq> CHR ''}'') (\<lambda>s1. lit ''}'' s1 \<bind> K)) \<noteq> None
         \<longleftrightarrow> (\<exists>g r. u = mk @ g @ ''}'' @ r)"
proof
  let ?k = "\<lambda>s1. lit ''}'' s1 \<bind> K"
  assume "(lit mk u \<bind> greedy_star (\<lambda>x. x \<noteq> CHR ''}'') ?k) \<noteq> None"
  then obtain s1 g a where s1: "lit mk u = Some s1"
    and gs: "greedy_star (\<lambda>x. x \<noteq> CHR ''}'') ?k s1 = Some (g, a)"
    by (auto simp: bind_eq_Some_conv)
  from greedy_star_SomeD [OF gs] obtain r' where r': "s1 = g @ r'" and k: "?k r' = Some a"
    by blast
  from k obtain r where "lit ''}'' r' = Some r" by (auto simp: bind_eq_Some_conv)
  then have "r' = ''}'' @ r" by (simp only: lit_Some_iff)
  with s1 r' have "u = mk @ g @ ''}'' @ r" by (simp add: lit_Some_iff)
  then show "\<exists>g r. u = mk @ g @ ''}'' @ r" by blast
next
  let ?k = "\<lambda>s1. lit ''}'' s1 \<bind> K"
  assume "\<exists>g r. u = mk @ g @ ''}'' @ r"
  then obtain g r where u: "u = mk @ g @ ''}'' @ r" by blast
  have "CHR ''}'' \<in> set (g @ ''}'' @ r)" by simp
  from split_list_first [OF this] obtain ys zs
    where split: "g @ ''}'' @ r = ys @ CHR ''}'' # zs" and ys: "CHR ''}'' \<notin> set ys" by blast
  have "greedy_star (\<lambda>x. x \<noteq> CHR ''}'') ?k (ys @ CHR ''}'' # zs) =
          map_option (Pair ys) (?k (CHR ''}'' # zs))"
    by (rule greedy_star_closed) (use ys in auto)
  moreover have "?k (CHR ''}'' # zs) \<noteq> None" using K [of zs] by simp
  ultimately have "greedy_star (\<lambda>x. x \<noteq> CHR ''}'') ?k (g @ ''}'' @ r) \<noteq> None"
    unfolding split by simp
  moreover have "lit mk u = Some (g @ ''}'' @ r)" unfolding u by simp
  ultimately show "(lit mk u \<bind> greedy_star (\<lambda>x. x \<noteq> CHR ''}'') ?k) \<noteq> None"
    by simp
qed

lemma braced_matches_iff:
  "braced name u \<noteq> None \<longleftrightarrow> (\<exists>g r. u = name @ g @ ''}'' @ r \<and> any_body g)"
proof -
  have "braced name u = (lit name u \<bind> greedy_star (\<lambda>x. x \<noteq> CHR ''}'') (\<lambda>s1. lit ''}'' s1 \<bind> Some))"
    by (simp add: braced_def)
  then show ?thesis using braced_then_iff [of Some name u] by (simp add: any_body_def)
qed

lemma section_matches_iff:
  "section_pattern u \<noteq> None \<longleftrightarrow> (\<exists>g r. u = section_marker @ g @ ''}'' @ r \<and> any_body g)"
proof -
  have "lazy_dot_star section_end y \<noteq> None" for y
    by (rule lazy_dot_star_end) (simp add: lookahead_def at_dollar_def)
  from braced_then_iff [of "lazy_dot_star section_end" section_marker u, OF this]
  show ?thesis by (simp add: section_pattern_def any_body_def)
qed

lemma subsection_matches_iff:
  "subsection_pattern u \<noteq> None \<longleftrightarrow>
     (\<exists>g r. u = subsection_marker @ g @ ''}'' @ r \<and> any_body g)"
proof -
  let ?la = "lookahead (\<lambda>s2. starts_with subsection_marker s2 \<or>
                 starts_with section_marker s2 \<or> at_dollar s2)"
  have "lazy_dot_star ?la y \<noteq> None" for y
    by (rule lazy_dot_star_end) (simp add: lookahead_def at_dollar_def)
  from braced_then_iff [of "lazy_dot_star ?la" subsection_marker u, OF this]
  show ?thesis by (simp add: subsection_pattern_def any_body_def)
qed

lemma dollar_delimited_iff:
  assumes cl: "cl = CHR ''$'' # cl'"
  shows "(lit opening u \<bind> greedy_plus (\<lambda>x. x \<noteq> CHR ''$'') (lit cl)) \<noteq> None \<longleftrightarrow>
         (\<exists>g r. u = opening @ g @ cl @ r \<and> dollar_free g)"
proof
  assume "(lit opening u \<bind> greedy_plus (\<lambda>x. x \<noteq> CHR ''$'') (lit cl)) \<noteq> None"
  then obtain s1 g r where s1: "lit opening u = Some s1"
    and gp: "greedy_plus (\<lambda>x. x \<noteq> CHR ''$'') (lit cl) s1 = Some (g, r)"
    by (auto simp: bind_eq_Some_conv)
  from greedy_plus_SomeD [OF gp] obtain r' where r': "s1 = g @ r'" and g: "g \<noteq> []"
    and k: "lit cl r' = Some r" by blast
  from gp have "list_all (\<lambda>x. x \<noteq> CHR ''$'') g"
    by (cases s1) (auto split: if_splits dest: greedy_star_class)
  then have "CHR ''$'' \<notin> set g" by (auto simp: list_all_iff)
  with g have "dollar_free g" by (simp add: dollar_free_def)
  moreover from s1 r' k have "u = opening @ g @ cl @ r" by (simp add: lit_Some_iff)
  ultimately show "\<exists>g r. u = opening @ g @ cl @ r \<and> dollar_free g" by blast
next
  assume "\<exists>g r. u = opening @ g @ cl @ r \<and> dollar_free g"
  then obtain g r where u: "u = opening @ g @ cl @ r" and df: "dollar_free g" by blast
  from df obtain x g' where g: "g = x # g'" and x: "x \<noteq> CHR ''$''" and g': "CHR ''$'' \<notin> set g'"
    by (cases g) (auto simp: dollar_free_def)
  have "greedy_star (\<lambda>x. x \<noteq> CHR ''$'') (lit cl) (g' @ CHR ''$'' # (cl' @ r)) =
          map_option (Pair g') (lit cl (CHR ''$'' # (cl' @ r)))"
    by (rule greedy_star_closed) (use g' cl in auto)
  moreover have "lit cl (CHR ''$'' # (cl' @ r)) = Some r"
    using lit_append [of cl r] by (simp add: cl)
  ultimately have "greedy_plus (\<lambda>x. x \<noteq> CHR ''$'') (lit cl) (g @ cl @ r) = Some (g, r)"
    using x by (simp add: g cl)
  moreover have "lit opening u = Some (g @ cl @ r)" unfolding u by simp
  ultimately show "(lit opening u \<bind> greedy_plus (\<lambda>x. x \<noteq> CHR ''$'') (lit cl)) \<noteq> None"
    by simp
qed

lemma inline_matches_iff:
  "inline_pattern u \<noteq> None \<longleftrightarrow> (\<exists>g r. u = ''$'' @ g @ ''$'' @ r \<and> dollar_free g)"
  unfolding inline_pattern_def by (rule dollar_delimited_iff) simp

lemma display_matches_iff:
  "display_pattern u \<noteq> None \<longleftrightarrow> (\<exists>g r. u = ''$$'' @ g @ ''$$'' @ r \<and> dollar_free g)"
  unfolding display_pattern_def by (rule dollar_delimited_iff) simp

lemma environment_iff:
  "(lit opening u \<bind> lazy_dot_star (lit closing)) \<noteq> None \<longleftrightarrow>
   (\<exists>g r. u = opening @ g @ closing @ r \<and> any_body g)"
proof
  assume "(lit opening u \<bind> lazy_dot_star (lit closing)) \<noteq> None"
  then obtain s1 g r where s1: "lit opening u = Some s1"
    and lz: "lazy_dot_star (lit closing) s1 = Some (g, r)"
    by (auto simp: bind_eq_Some_conv)
  from lazy_dot_star_SomeD [OF lz] obtain r' where "s1 = g @ r'" "lit closing r' = Some r"
    by blast
  with s1 have "u = opening @ g @ closing @ r" by (simp add: lit_Some_iff)
  then show "\<exists>g r. u = opening @ g @ closing @ r \<and> any_body g"
    by (auto simp: any_body_def)
next
  assume "\<exists>g r. u = opening @ g @ closing @ r \<and> any_body g"
  then obtain g r where u: "u = opening @ g @ closing @ r" by blast
  have "lit closing (closing @ r) \<noteq> None" by simp
  then have "lazy_dot_star (lit closing) (g @ closing @ r) \<noteq> None"
    by (rule lazy_dot_star_reaches)
  moreover have "lit opening u = Some (g @ closing @ r)" unfolding u by simp
  ultimately show "(lit opening u \<bind> lazy_dot_star (lit closing)) \<noteq> None" by simp
qed

lemma equation_matches_iff:
  "equation_pattern u \<noteq> None \<longleftrightarrow>
   (\<exists>g r. u = (CHR 0x5C # ''begin{equation}'') @ g @ (CHR 0x5C # ''end{equation}'') @ r \<and>
          any_body g)"
  unfolding equation_pattern_def by (rule environment_iff)

lemma align_matches_iff:
  "align_pattern u \<noteq> None \<longleftrightarrow>
   (\<exists>g r. u = (CHR 0x5C # ''begin{align}'') @ g @ (CHR 0x5C # ''end{align}'') @ r \<and>
          any_body g)"
  unfolding align_pattern_def by (rule environment_iff)

lemma braced_findall_iff:
  "findall (braced name) text = [] \<longleftrightarrow> \<not> marked name any_body ''}'' text"
  by (rule findall_Nil_iff_marked) (rule braced_matches_iff)

lemma sections_empty_iff:
  "sections (read_text text) = [] \<longleftrightarrow> \<not> marked section_marker any_body ''}'' text"
proof -
  have "findall section_pattern text = [] \<longleftrightarrow> \<not> marked section_marker any_body ''}'' text"
    by (rule findall_Nil_iff_marked) (rule section_matches_iff)
  then show ?thesis by (simp add: read_text_def)
qed

lemma subsections_empty_iff:
  assumes "sec \<in> set (sections (read_text text))"
  shows "subsections sec = [] \<longleftrightarrow> \<not> marked subsection_marker any_body ''}'' (content sec)"
proof -
  have sub: "findall subsection_pattern c = [] \<longleftrightarrow> \<not> marked subsection_marker any_body ''}'' c" for c
    by (rule findall_Nil_iff_marked) (rule subsection_matches_iff)
  from assms obtain t c where "sec = \<lparr>title = t, content = c,
      subsections = map (\<lambda>(sub_t, sub_c). \<lparr>sub_title = sub_t, sub_content = sub_c\<rparr>)
                      (findall subsection_pattern c)\<rparr>"
    by (auto simp: read_text_def)
  then show ?thesis using sub [of c] by simp
qed

lemma formula_lists_empty_iff:
  "findall inline_pattern text = [] \<longleftrightarrow> \<not> marked ''$'' dollar_free ''$'' text"
  "findall display_pattern text = [] \<longleftrightarrow> \<not> marked ''$$'' dollar_free ''$$'' text"
  "findall equation_pattern text = [] \<longleftrightarrow> \<not> marked begin_equation any_body end_equation text"
  "findall align_pattern text = [] \<longleftrightarrow> \<not> marked begin_align any_body end_align text"
  by (rule findall_Nil_iff_marked, rule inline_matches_iff display_matches_iff
        equation_matches_iff align_matches_iff)+

lemma formulas_lists:
  "formulas (check_formulas text) =
     [(''inline'', findall inline_pattern text),
      (''display'', findall display_pattern text),
      (''equation'', findall equation_pattern text),
      (''align'', findall align_pattern text)]"
  by (simp add: check_formulas_def Let_def)

lemma errors_empty:
  assumes "findall inline_pattern text = []" "findall display_pattern text = []"
    "findall equation_pattern text = []" "findall align_pattern text = []"
  shows "errors (check_formulas text) = []"
  using check_formulas_empty [OF assms] by simp

lemma suggestions_empty_iff:
  "suggestions (check_formulas text) = [] \<longleftrightarrow> findall align_pattern text = []"
  by (simp add: check_formulas_def Let_def)

lemma split_on_nonempty: "split_on sep s \<noteq> []"
  by (induction s) (auto split: list.splits)

lemma citations_empty_iff:
  "citations (analyze_citations text) = {} \<longleftrightarrow>
     \<not> marked (CHR 0x5C # ''cite{'') any_body ''}'' text"
proof -
  have "citations (analyze_citations text) = {} \<longleftrightarrow>
          findall (braced (CHR 0x5C # ''cite{'')) text = []"
  proof (cases "findall (braced (CHR 0x5C # ''cite{'')) text")
    case Nil
    then show ?thesis by (simp add: analyze_citations_def Let_def)
  next
    case (Cons c cs)
    obtain w ws where "split_on CHR '','' c = w # ws"
      using split_on_nonempty [of "CHR '',''" c] by (cases "split_on CHR '','' c") auto
    with Cons show ?thesis by (simp add: analyze_citations_def Let_def)
  qed
  then show ?thesis by (simp add: braced_findall_iff)
qed

lemma citations_empty_rest:
  assumes "citations (analyze_citations text) = {}"
  shows "citation_count (analyze_citations text) = 0 \<and>
         missing_references (analyze_citations text) = []"
proof -
  from assms have "set (concat (map (map strip)
      (map (split_on CHR '','') (findall (braced (CHR 0x5C # ''cite{'')) text)))) = {}"
    by (simp add: analyze_citations_def Let_def)
  then have "concat (map (map strip)
      (map (split_on CHR '','') (findall (braced (CHR 0x5C # ''cite{'')) text))) = []"
    by (simp only: set_empty)
  then show ?thesis by (simp add: analyze_citations_def Let_def)
qed

lemma bibliography_empty_iff:
  "bibliography_count (analyze_citations text) = 0 \<longleftrightarrow>
     \<not> marked (CHR 0x5C # ''bibitem{'') any_body ''}'' text"
proof -
  have "bibliography_count (analyze_citations text) = 0 \<longleftrightarrow>
          findall (braced (CHR 0x5C # ''bibitem{'')) text = []"
    by (simp add: analyze_citations_def Let_def)
  then show ?thesis by (simp add: braced_findall_iff)
qed

lemma bibliography_empty_rest:
  "bibliography_count (analyze_citations text) = 0 \<Longrightarrow>
   unused_references (analyze_citations text) = []"
  by (simp add: analyze_citations_def Let_def)

lemma term_step_keeps_nonempty:
  "term_step st x = Inr st' \<Longrightarrow> fst st \<noteq> [] \<Longrightarrow> fst st' \<noteq> []"
  by (auto simp: term_step_def Let_def split: if_splits sum.splits)

lemma term_step_first: "term_step ([], incs) x = Inr ([(lower x, x)], incs)"
  by (simp add: term_step_def)

lemma scan_found_empty_iff:
  assumes "scan_terms text = Inr (found, incs)"
  shows "found = [] \<longleftrightarrow> extracted_terms text = []"
proof (cases "extracted_terms text")
  case Nil
  with assms show ?thesis by (simp add: scan_terms_flat)
next
  case (Cons x xs)
  with assms have run: "for_each term_step xs ([(lower x, x)], []) = Inr (found, incs)"
    by (simp add: scan_terms_flat term_step_first)
  have "fst (found, incs) \<noteq> []"
    by (rule for_each_invariant [OF run, where P = "\<lambda>st. fst st \<noteq> []"])
       (auto dest: term_step_keeps_nonempty)
  with Cons show ?thesis by simp
qed

lemma extracted_empty_iff:
  "extracted_terms text = [] \<longleftrightarrow>
     \<not> marked (CHR 0x5C # ''textit{'') any_body ''}'' text \<and>
     \<not> marked (CHR 0x5C # ''textbf{'') any_body ''}'' text \<and>
     \<not> marked (CHR 0x5C # ''term{'') any_body ''}'' text \<and>
     \<not> marked (CHR 0x5C # ''cite{'') any_body ''}'' text"
  by (simp add: extracted_terms_def term_patterns_def braced_findall_iff)

lemma checker_report:
  "\<exists>r cache'. check_term_consistency text upd cache = Inr (r, cache') \<and>
     (terms r = [] \<longleftrightarrow>
        \<not> marked (CHR 0x5C # ''textit{'') any_body ''}'' text \<and>
        \<not> marked (CHR 0x5C # ''textbf{'') any_body ''}'' text \<and>
        \<not> marked (CHR 0x5C # ''term{'') any_body ''}'' text \<and>
        \<not> marked (CHR 0x5C # ''cite{'') any_body ''}'' text) \<and>
     (terms r = [] \<longrightarrow> inconsistencies r = [])"
proof -
  obtain found incs where scan: "scan_terms text = Inr (found, incs)"
    using scan_terms_total by blast
  have a: "found = [] \<longleftrightarrow> extracted_terms text = []" by (rule scan_found_empty_iff [OF scan])
  have b: "found = [] \<longrightarrow> incs = []"
  proof
    assume "found = []"
    with a have "extracted_terms text = []" by simp
    with scan show "incs = []" by (simp add: scan_terms_flat)
  qed
  let ?r = "\<lparr>terms = found, inconsistencies = incs\<rparr>"
  have "check_term_consistency text upd cache = Inr (?r, if upd then found else cache)"
    using scan by (simp add: check_term_consistency_def)
  moreover have "terms ?r = [] \<longleftrightarrow>
        \<not> marked (CHR 0x5C # ''textit{'') any_body ''}'' text \<and>
        \<not> marked (CHR 0x5C # ''textbf{'') any_body ''}'' text \<and>
        \<not> marked (CHR 0x5C # ''term{'') any_body ''}'' text \<and>
        \<not> marked (CHR 0x5C # ''cite{'') any_body ''}'' text"
    using a extracted_empty_iff by simp
  moreover have "terms ?r = [] \<longrightarrow> inconsistencies ?r = []" using b by simp
  ultimately show ?thesis by blast
qed

text \<open>
  C8: every engine returns a report for every text, and a structure whose markup is
  absent or malformed comes out empty. \<open>read_text\<close>, \<open>check_formulas\<close> and
  \<open>analyze_citations\<close> contain no operation that can raise and are total functions into
  their report types; \<open>check_term_consistency\<close> reads the dictionary with a subscript,
  which could raise \<open>KeyError\<close>, and it is proved never to. For every text, structure by
  structure:
  \<^item> the term table is empty exactly when no \<open>\textit{\<close>, \<open>\textbf{\<close>, \<open>\term{\<close> or
    \<open>\cite{\<close> is followed by a closing brace, and then no inconsistency is reported;
  \<^item> the section list is empty exactly when no \<open>\section{\<close> is followed by a closing
    brace, and a section's subsection list exactly when its content holds no
    \<open>\subsection{\<close> followed by a closing brace; the raw text is always kept;
  \<^item> the report of the formula validator always holds the four category lists; the
    inline (display) list is empty exactly when no \<open>$\<close> (\<open>$$\<close>) is followed by a
    non-empty run without dollar sign and then \<open>$\<close> (\<open>$$\<close>), the equation (align) list
    exactly when no \<open>\begin\<close> of the environment is followed by its \<open>\end\<close>; with
    four empty lists there is no error, and there is a suggestion only when the align
    list is not empty;
  \<^item> the citation set is empty exactly when no \<open>\cite{\<close> is followed by a closing brace,
    and then the count is 0 and no reference is missing; the bibliography count is 0
    exactly when no \<open>\bibitem{\<close> is followed by a closing brace, and then no reference
    is unused.
  In particular a text without backslash and dollar sign (the empty text is one) yields
  the empty report of every engine, and a text in which no brace is ever closed yields
  an empty section list, an empty term table and empty citation results.
\<close>

theorem engines_total_and_degrade_to_empty:
  "(\<exists>r cache'. check_term_consistency text upd cache = Inr (r, cache') \<and>
      (terms r = [] \<longleftrightarrow>
         \<not> marked (CHR 0x5C # ''textit{'') any_body ''}'' text \<and>
         \<not> marked (CHR 0x5C # ''textbf{'') any_body ''}'' text \<and>
         \<not> marked (CHR 0x5C # ''term{'') any_body ''}'' text \<and>
         \<not> marked (CHR 0x5C # ''cite{'') any_body ''}'' text) \<and>
      (terms r = [] \<longrightarrow> inconsistencies r = [])) \<and>
   doc_content (read_text text) = text \<and>
   (sections (read_text text) = [] \<longleftrightarrow> \<not> marked section_marker any_body ''}'' text) \<and>
   (\<forall>sec \<in> set (sections (read_text text)).
      subsections sec = [] \<longleftrightarrow> \<not> marked subsection_marker any_body ''}'' (content sec)) \<and>
   formulas (check_formulas text) =
     [(''inline'', findall inline_pattern text),
      (''display'', findall display_pattern text),
      (''equation'', findall equation_pattern text),
      (''align'', findall align_pattern text)] \<and>
   (findall inline_pattern text = [] \<longleftrightarrow> \<not> marked ''$'' dollar_free ''$'' text) \<and>
   (findall display_pattern text = [] \<longleftrightarrow> \<not> marked ''$$'' dollar_free ''$$'' text) \<and>
   (findall equation_pattern text = [] \<longleftrightarrow>
      \<not> marked begin_equation any_body end_equation text) \<and>
   (findall align_pattern text = [] \<longleftrightarrow> \<not> marked begin_align any_body end_align text) \<and>
   (findall inline_pattern text = [] \<and> findall display_pattern text = [] \<and>
    findall equation_pattern text = [] \<and> findall align_pattern text = [] \<longrightarrow>
      errors (check_formulas text) = []) \<and>
   (suggestions (check_formulas text) = [] \<longleftrightarrow> findall align_pattern text = []) \<and>
   (citations (analyze_citations text) = {} \<longleftrightarrow>
      \<not> marked (CHR 0x5C # ''cite{'') any_body ''}'' text) \<and>
   (citations (analyze_citations text) = {} \<longrightarrow>
      citation_count (analyze_citations text) = 0 \<and>
      missing_references (analyze_citations text) = []) \<and>
   (bibliography_count (analyze_citations text) = 0 \<longleftrightarrow>
      \<not> marked (CHR 0x5C # ''bibitem{'') any_body ''}'' text) \<and>
   (bibliography_count (analyze_citations text) = 0 \<longrightarrow>
      unused_references (analyze_citations text) = []) \<and>
   (CHR 0x5C \<notin> set text \<and> CHR ''$'' \<notin> set text \<longrightarrow>
      read_text text = \<lparr>sections = [], doc_content = text\<rparr> \<and>
      check_term_consistency text upd cache =
        Inr (\<lparr>terms = [], inconsistencies = []\<rparr>, if upd then [] else cache) \<and>
      check_formulas text =
        \<lparr>formulas = [(''inline'', []), (''display'', []), (''equation'', []), (''align'', [])],
         errors = [], suggestions = []\<rparr> \<and>
      analyze_citations text =
        \<lparr>citation_count = 0, citations = {}, bibliography_count = 0,
         unused_references = [], missing_references = []\<rparr>) \<and>
   (CHR ''}'' \<notin> set text \<longrightarrow>
      read_text text = \<lparr>sections = [], doc_content = text\<rparr> \<and>
      check_term_consistency text upd cache =
        Inr (\<lparr>terms = [], inconsistencies = []\<rparr>, if upd then [] else cache) \<and>
      analyze_citations text =
        \<lparr>citation_count = 0, citations = {}, bibliography_count = 0,
         unused_references = [], missing_references = []\<rparr>)"
proof -
  have doc: "doc_content (read_text text) = text" by (simp add: read_text_def)
  have subs: "\<forall>sec \<in> set (sections (read_text text)).
      subsections sec = [] \<longleftrightarrow> \<not> marked subsection_marker any_body ''}'' (content sec)"
    using subsections_empty_iff by blast
  have err: "findall inline_pattern text = [] \<and> findall display_pattern text = [] \<and>
    findall equation_pattern text = [] \<and> findall align_pattern text = [] \<longrightarrow>
      errors (check_formulas text) = []"
    using errors_empty by blast
  have cit: "citations (analyze_citations text) = {} \<longrightarrow>
      citation_count (analyze_citations text) = 0 \<and>
      missing_references (analyze_citations text) = []"
    using citations_empty_rest by blast
  have bib: "bibliography_count (analyze_citations text) = 0 \<longrightarrow>
      unused_references (analyze_citations text) = []"
    using bibliography_empty_rest by blast
  have old1: "CHR 0x5C \<notin> set text \<and> CHR ''$'' \<notin> set text \<longrightarrow>
      read_text text = \<lparr>sections = [], doc_content = text\<rparr> \<and>
      check_term_consistency text upd cache =
        Inr (\<lparr>terms = [], inconsistencies = []\<rparr>, if upd then [] else cache) \<and>
      check_formulas text =
        \<lparr>formulas = [(''inline'', []), (''display'', []), (''equation'', []), (''align'', [])],
         errors = [], suggestions = []\<rparr> \<and>
      analyze_citations text =
        \<lparr>citation_count = 0, citations = {}, bibliography_count = 0,
         unused_references = [], missing_references = []\<rparr>"
    using no_markup by blast
  have old2: "CHR ''}'' \<notin> set text \<longrightarrow>
      read_text text = \<lparr>sections = [], doc_content = text\<rparr> \<and>
      check_term_consistency text upd cache =
        Inr (\<lparr>terms = [], inconsistencies = []\<rparr>, if upd then [] else cache) \<and>
      analyze_citations text =
        \<lparr>citation_count = 0, citations = {}, bibliography_count = 0,
         unused_references = [], missing_references = []\<rparr>"
    using unclosed by blast
  show ?thesis
    by (intro conjI checker_report doc sections_empty_iff subs formulas_lists
          formula_lists_empty_iff err suggestions_empty_iff citations_empty_iff cit
          bibliography_empty_iff bib old1 old2)
qed

lemma w2_unmarked:
  "\<not> marked section_marker any_body ''}''
       (begin_align @ ''y $x '' @ section_marker @ ''A '' @ CHR 0x5C # ''cite{b'')"
  "\<not> marked (CHR 0x5C # ''cite{'') any_body ''}''
       (begin_align @ ''y $x '' @ section_marker @ ''A '' @ CHR 0x5C # ''cite{b'')"
  "\<not> marked (CHR 0x5C # ''bibitem{'') any_body ''}''
       (begin_align @ ''y $x '' @ section_marker @ ''A '' @ CHR 0x5C # ''cite{b'')"
  "\<not> marked ''$'' dollar_free ''$''
       (begin_align @ ''y $x '' @ section_marker @ ''A '' @ CHR 0x5C # ''cite{b'')"
  "\<not> marked ''$$'' dollar_free ''$$''
       (begin_align @ ''y $x '' @ section_marker @ ''A '' @ CHR 0x5C # ''cite{b'')"
  "\<not> marked begin_equation any_body end_equation
       (begin_align @ ''y $x '' @ section_marker @ ''A '' @ CHR 0x5C # ''cite{b'')"
  "\<not> marked begin_align any_body end_align
       (begin_align @ ''y $x '' @ section_marker @ ''A '' @ CHR 0x5C # ''cite{b'')"
  by code_simp+

lemma w1_unmarked:
  "\<not> marked section_marker any_body ''}'' (CHR 0x5C # ''textbf{x}'')"
  "\<not> marked (CHR 0x5C # ''cite{'') any_body ''}'' (CHR 0x5C # ''textbf{x}'')"
  "\<not> marked ''$'' dollar_free ''$'' (CHR 0x5C # ''textbf{x}'')"
  by code_simp+

lemma w2_terms_unmarked:
  "\<not> marked (CHR 0x5C # ''textit{'') any_body ''}''
       (begin_align @ ''y $x '' @ section_marker @ ''A '' @ CHR 0x5C # ''cite{b'')"
  "\<not> marked (CHR 0x5C # ''textbf{'') any_body ''}''
       (begin_align @ ''y $x '' @ section_marker @ ''A '' @ CHR 0x5C # ''cite{b'')"
  "\<not> marked (CHR 0x5C # ''term{'') any_body ''}''
       (begin_align @ ''y $x '' @ section_marker @ ''A '' @ CHR 0x5C # ''cite{b'')"
  by code_simp+

text \<open>
  The statement at the malformed text \<open>\begin{align}y $x \section{A \cite{b\<close> (no
  environment, dollar pair or brace is closed), at \<open>\textbf{x}\<close> (a backslash and a
  closing brace, but no section, citation or formula) and at the empty text.
\<close>

theorem engines_total_and_degrade_to_empty_witness:
  "sections (read_text (begin_align @ ''y $x '' @ section_marker @ ''A '' @ CHR 0x5C # ''cite{b'')) = [] \<and>
   formulas (check_formulas (begin_align @ ''y $x '' @ section_marker @ ''A '' @ CHR 0x5C # ''cite{b'')) =
     [(''inline'', []), (''display'', []), (''equation'', []), (''align'', [])] \<and>
   errors (check_formulas (begin_align @ ''y $x '' @ section_marker @ ''A '' @ CHR 0x5C # ''cite{b'')) = [] \<and>
   suggestions (check_formulas (begin_align @ ''y $x '' @ section_marker @ ''A '' @ CHR 0x5C # ''cite{b'')) = [] \<and>
   citations (analyze_citations (begin_align @ ''y $x '' @ section_marker @ ''A '' @ CHR 0x5C # ''cite{b'')) = {} \<and>
   missing_references (analyze_citations (begin_align @ ''y $x '' @ section_marker @ ''A '' @ CHR 0x5C # ''cite{b'')) = [] \<and>
   bibliography_count (analyze_citations (begin_align @ ''y $x '' @ section_marker @ ''A '' @ CHR 0x5C # ''cite{b'')) = 0 \<and>
   unused_references (analyze_citations (begin_align @ ''y $x '' @ section_marker @ ''A '' @ CHR 0x5C # ''cite{b'')) = [] \<and>
   (\<exists>r cache'.
      check_term_consistency (begin_align @ ''y $x '' @ section_marker @ ''A '' @ CHR 0x5C # ''cite{b'')
        False [] = Inr (r, cache') \<and> terms r = [] \<and> inconsistencies r = []) \<and>
   sections (read_text (CHR 0x5C # ''textbf{x}'')) = [] \<and>
   citations (analyze_citations (CHR 0x5C # ''textbf{x}'')) = {} \<and>
   findall inline_pattern (CHR 0x5C # ''textbf{x}'') = [] \<and>
   read_text [] = \<lparr>sections = [], doc_content = []\<rparr> \<and>
   check_term_consistency [] True [(''a'', ''A'')] =
     Inr (\<lparr>terms = [], inconsistencies = []\<rparr>, [])"
proof -
  let ?w2 = "begin_align @ ''y $x '' @ section_marker @ ''A '' @ CHR 0x5C # ''cite{b''"
  let ?w1 = "CHR 0x5C # ''textbf{x}''"
  note t2 = engines_total_and_degrade_to_empty [of ?w2 False "[]"]
  note t1 = engines_total_and_degrade_to_empty [of ?w1 False "[]"]
  note t0 = engines_total_and_degrade_to_empty [of "[]" True "[(''a'', ''A'')]"]
  have a: "sections (read_text ?w2) = []" using t2 w2_unmarked(1) by (elim conjE) simp
  have f: "findall inline_pattern ?w2 = []" "findall display_pattern ?w2 = []"
    "findall equation_pattern ?w2 = []" "findall align_pattern ?w2 = []"
    using t2 w2_unmarked(4-7) by (elim conjE, simp)+
  have b: "formulas (check_formulas ?w2) =
     [(''inline'', []), (''display'', []), (''equation'', []), (''align'', [])]"
    using t2 f by (elim conjE) simp
  have c: "errors (check_formulas ?w2) = []" "suggestions (check_formulas ?w2) = []"
    using t2 f by (elim conjE, simp)+
  have d: "citations (analyze_citations ?w2) = {}" using t2 w2_unmarked(2) by (elim conjE) simp
  have d': "missing_references (analyze_citations ?w2) = []" using t2 d by (elim conjE) simp
  have e: "bibliography_count (analyze_citations ?w2) = 0" using t2 w2_unmarked(3) by (elim conjE) simp
  have e': "unused_references (analyze_citations ?w2) = []" using t2 e by (elim conjE) simp
  have g: "\<exists>r cache'. check_term_consistency ?w2 False [] = Inr (r, cache') \<and>
      terms r = [] \<and> inconsistencies r = []"
    using t2 w2_terms_unmarked w2_unmarked(2) by (elim conjE exE) simp
  have h: "sections (read_text ?w1) = []" using t1 w1_unmarked(1) by (elim conjE) simp
  have i: "citations (analyze_citations ?w1) = {}" using t1 w1_unmarked(2) by (elim conjE) simp
  have j: "findall inline_pattern ?w1 = []" using t1 w1_unmarked(3) by (elim conjE) simp
  have k: "read_text [] = \<lparr>sections = [], doc_content = []\<rparr>"
    "check_term_consistency [] True [(''a'', ''A'')] =
       Inr (\<lparr>terms = [], inconsistencies = []\<rparr>, [])"
    using t0 by (elim conjE, simp)+
  show ?thesis by (intro conjI a b c d d' e e' g h i j k)
qed

subsection \<open>The formula categories\<close>











subsection \<open>Two sections\<close>

lemma occurs_iff: "occurs l s \<longleftrightarrow> (\<exists>u v. s = u @ l @ v)"
proof (induction s)
  case Nil
  show ?case by (auto simp: starts_with_iff)
next
  case (Cons c cs)
  show ?case
  proof
    assume "occurs l (c # cs)"
    then consider "starts_with l (c # cs)" | "occurs l cs" by auto
    then show "\<exists>u v. c # cs = u @ l @ v"
    proof cases
      case 1
      then obtain r where "c # cs = l @ r" by (auto simp: starts_with_iff)
      then have "c # cs = [] @ l @ r" by simp
      then show ?thesis by blast
    next
      case 2
      with Cons obtain u v where "cs = u @ l @ v" by blast
      then have "c # cs = (c # u) @ l @ v" by simp
      then show ?thesis by blast
    qed
  next
    assume "\<exists>u v. c # cs = u @ l @ v"
    then obtain u v where uv: "c # cs = u @ l @ v" by blast
    show "occurs l (c # cs)"
    proof (cases u)
      case Nil
      with uv have "starts_with l (c # cs)" by (auto simp: starts_with_iff)
      then show ?thesis by simp
    next
      case (Cons a u')
      with uv have "cs = u' @ l @ v" by simp
      with Cons.IH have "occurs l cs" by blast
      then show ?thesis by simp
    qed
  qed
qed

lemma lit_not_across:
  "c \<notin> set w \<Longrightarrow> lit w (u @ c # z) = Some r \<Longrightarrow> \<exists>u2. u = w @ u2"
proof (induction w arbitrary: u)
  case Nil
  show ?case by simp
next
  case (Cons p ps)
  show ?case
  proof (cases u)
    case Nil
    with Cons.prems show ?thesis by (auto split: if_splits)
  next
    case (Cons a u')
    with Cons.prems have pa: "p = a" and rest: "lit ps (u' @ c # z) = Some r"
      by (auto split: if_splits)
    from Cons.prems(1) have "c \<notin> set ps" by simp
    from Cons.IH [OF this rest] obtain u2 where "u' = ps @ u2" by blast
    with pa Cons show ?thesis by simp
  qed
qed

text \<open>
  A literal whose first character does not come back inside it cannot start within \<open>x\<close>
  and run into a copy of itself that follows \<open>x\<close>, unless it occurs in \<open>x\<close>.
\<close>

lemma no_straddle:
  assumes c: "c \<notin> set w" and no: "\<not> occurs (c # w) x" and x: "x = v @ u" and u: "u \<noteq> []"
  shows "\<not> starts_with (c # w) (u @ c # z)"
proof
  assume "starts_with (c # w) (u @ c # z)"
  then obtain r where r: "lit (c # w) (u @ c # z) = Some r"
    by (auto simp: starts_with_def)
  from u obtain a u' where au: "u = a # u'" by (cases u) auto
  with r have ac: "a = c" and r': "lit w (u' @ c # z) = Some r" by (auto split: if_splits)
  from lit_not_across [OF c r'] obtain u2 where "u' = w @ u2" by blast
  with au ac x have "x = v @ (c # w) @ u2" by simp
  then have "occurs (c # w) x" unfolding occurs_iff by blast
  with no show False by contradiction
qed

lemma occurs_suffix: "occurs l u \<Longrightarrow> occurs l (v @ u)"
  unfolding occurs_iff by (metis append.assoc)

lemma occurs_prefix: "occurs l u \<Longrightarrow> occurs l (u @ v)"
  unfolding occurs_iff by (metis append.assoc)

lemma not_starts_if_not_occurs: "\<not> occurs l s \<Longrightarrow> \<not> starts_with l s"
  by (cases s) auto

lemma lazy_until:
  assumes "\<And>u v. x = v @ u \<Longrightarrow> u \<noteq> [] \<Longrightarrow> k (u @ y) = None" and "k y = Some a"
  shows "lazy_dot_star k (x @ y) = Some (x, a)"
  using assms(1)
proof (induction x)
  case Nil
  show ?case using assms(2) by (cases y) auto
next
  case (Cons c x)
  have "k ((c # x) @ y) = None" using Cons.prems [of "[]" "c # x"] by simp
  moreover have "lazy_dot_star k (x @ y) = Some (x, a)"
  proof (rule Cons.IH)
    fix u v assume "x = v @ u" "u \<noteq> []"
    then show "k (u @ y) = None" using Cons.prems [of "c # v" u] by simp
  qed
  ultimately show ?case by simp
qed

lemma starts_occurs: "starts_with l s \<Longrightarrow> occurs l s"
  by (cases s) auto

lemma section_pattern_at:
  assumes t: "CHR ''}'' \<notin> set t" and body: "lazy_dot_star section_end y = Some (b, r)"
  shows "section_pattern (section_marker @ t @ ''}'' @ y) = Some ((t, b), r)"
proof -
  let ?k = "\<lambda>s1. lit ''}'' s1 \<bind> lazy_dot_star section_end"
  have "greedy_star (\<lambda>x. x \<noteq> CHR ''}'') ?k (t @ CHR ''}'' # y) =
          map_option (Pair t) (?k (CHR ''}'' # y))"
    by (rule greedy_star_closed) (use t in auto)
  then show ?thesis using body by (simp add: section_pattern_def)
qed

lemma section_pattern_needs_marker:
  "\<not> starts_with section_marker s \<Longrightarrow> section_pattern s = None"
  by (simp add: section_pattern_def starts_with_def)

lemma subsection_pattern_needs_marker:
  "\<not> starts_with subsection_marker s \<Longrightarrow> subsection_pattern s = None"
  by (simp add: subsection_pattern_def starts_with_def)

lemma no_subsections:
  assumes "\<not> occurs subsection_marker c"
  shows "findall subsection_pattern c = []"
proof -
  have "finditer subsection_pattern 0 c = []"
  proof (rule finditer_no_match)
    fix u v assume "c = v @ u"
    with assms have "\<not> occurs subsection_marker u" using occurs_suffix by blast
    then have "\<not> starts_with subsection_marker u" using starts_occurs by blast
    then show "subsection_pattern u = None" by (rule subsection_pattern_needs_marker)
  qed
  then show ?thesis by (simp add: findall_def)
qed

lemma body_until_marker:
  assumes "\<not> occurs section_marker c"
  shows "lazy_dot_star section_end (c @ section_marker @ z) = Some (c, section_marker @ z)"
proof (rule lazy_until)
  show "section_end (section_marker @ z) = Some (section_marker @ z)"
    by (simp add: lookahead_def starts_with_def)
next
  fix u v assume c: "c = v @ u" and u: "u \<noteq> []"
  have "\<not> starts_with section_marker (u @ CHR 0x5C # (''section{'' @ z))"
    by (rule no_straddle [OF _ assms c u]) simp
  moreover have "\<not> at_dollar (u @ section_marker @ z)"
    using u by (cases u) (auto simp: at_dollar_def)
  ultimately show "section_end (u @ section_marker @ z) = None"
    by (simp add: lookahead_def)
qed

lemma chomp_split: "\<exists>rest. c = chomp c @ rest \<and> (rest = [] \<or> rest = [CHR 0x0A])"
proof (cases "c \<noteq> [] \<and> last c = CHR 0x0A")
  case True
  then have "chomp c = butlast c" by (simp add: chomp_def)
  moreover from True have "butlast c @ [CHR 0x0A] = c" by (metis append_butlast_last_id)
  ultimately have "c = chomp c @ [CHR 0x0A]" by simp
  then show ?thesis by blast
next
  case False
  then show ?thesis by (auto simp: chomp_def)
qed

lemma body_to_end:
  assumes no: "\<not> occurs section_marker c" and split: "c = b @ rest"
    and rest: "rest = [] \<or> rest = [CHR 0x0A]" and b: "b = chomp c"
  shows "lazy_dot_star section_end c = Some (b, rest)"
proof -
  have "lazy_dot_star section_end (b @ rest) = Some (b, rest)"
  proof (rule lazy_until)
    show "section_end rest = Some rest" using rest by (auto simp: lookahead_def at_dollar_def)
  next
    fix u v assume bu: "b = v @ u" and u: "u \<noteq> []"
    have "\<not> occurs section_marker (u @ rest)"
    proof
      assume "occurs section_marker (u @ rest)"
      then have "occurs section_marker (v @ u @ rest)" by (rule occurs_suffix)
      with split bu no show False by simp
    qed
    then have ns: "\<not> starts_with section_marker (u @ rest)" using starts_occurs by blast
    have nd: "\<not> at_dollar (u @ rest)"
    proof
      assume "at_dollar (u @ rest)"
      with u have one: "u @ rest = [CHR 0x0A]" by (simp add: at_dollar_def)
      with u have utl: "u = [CHR 0x0A] \<and> rest = []"
        by (cases u) auto
      with split bu have c: "c = v @ [CHR 0x0A]" and bc: "b = c" by simp_all
      from c have "chomp c = v" by (simp add: chomp_def)
      with b bc c show False by simp
    qed
    from ns nd show "section_end (u @ rest) = None" by (simp add: lookahead_def)
  qed
  with split show ?thesis by simp
qed

lemma finditer_tail:
  "rest = [] \<or> rest = [CHR 0x0A] \<Longrightarrow> finditer section_pattern i rest = []"
  by (auto simp: section_pattern_def)

lemma two_sections_findall:
  assumes t1: "CHR ''}'' \<notin> set t1" and t2: "CHR ''}'' \<notin> set t2"
    and pre: "\<not> occurs section_marker pre"
    and c1: "\<not> occurs section_marker c1"
    and c2: "\<not> occurs section_marker c2"
  shows "findall section_pattern
           (pre @ section_marker @ t1 @ ''}'' @ c1 @ section_marker @ t2 @ ''}'' @ c2) =
         [(t1, c1), (t2, chomp c2)]"
proof -
  obtain rest where split: "c2 = chomp c2 @ rest" and rest: "rest = [] \<or> rest = [CHR 0x0A]"
    using chomp_split by blast
  let ?Z = "section_marker @ t2 @ ''}'' @ c2"
  let ?Y = "section_marker @ t1 @ ''}'' @ c1 @ ?Z"
  let ?u1 = "section_marker @ t1 @ ''}'' @ c1"
  let ?u2 = "section_marker @ t2 @ ''}'' @ chomp c2"
  have skip: "finditer section_pattern 0 (pre @ ?Y) = finditer section_pattern (0 + length pre) ?Y"
  proof (rule finditer_skip)
    fix u v assume p: "pre = v @ u" and u: "u \<noteq> []"
    have "\<not> starts_with section_marker (u @ CHR 0x5C # (''section{'' @ t1 @ ''}'' @ c1 @ ?Z))"
      by (rule no_straddle [OF _ pre p u]) simp
    then have "\<not> starts_with section_marker (u @ ?Y)" by simp
    then show "section_pattern (u @ ?Y) = None" by (rule section_pattern_needs_marker)
  qed
  have m1: "section_pattern (?u1 @ ?Z) = Some ((t1, c1), ?Z)"
    using section_pattern_at [OF t1 body_until_marker [OF c1], of "t2 @ ''}'' @ c2"] by simp
  have m2: "section_pattern (?u2 @ rest) = Some ((t2, chomp c2), rest)"
    using section_pattern_at [OF t2 body_to_end [OF c2 split rest refl]] split by simp
  have f1: "finditer section_pattern (length pre) (?u1 @ ?Z) =
        \<lparr>m_start = length pre, m_end = length pre + length ?u1, m_groups = (t1, c1)\<rparr> #
        finditer section_pattern (length pre + length ?u1) ?Z"
    by (rule finditer_match [where m = section_pattern and u = "?u1" and r = "?Z", OF m1]) simp
  have f2: "finditer section_pattern (length pre + length ?u1) (?u2 @ rest) =
        \<lparr>m_start = length pre + length ?u1, m_end = length pre + length ?u1 + length ?u2,
         m_groups = (t2, chomp c2)\<rparr> #
        finditer section_pattern (length pre + length ?u1 + length ?u2) rest"
    by (rule finditer_match [where m = section_pattern and u = "?u2" and r = rest, OF m2]) simp
  have z: "?Z = ?u2 @ rest" using split by simp
  have y: "?Y = ?u1 @ ?Z" by simp
  have "map m_groups (finditer section_pattern 0 (pre @ ?Y)) = [(t1, c1), (t2, chomp c2)]"
    unfolding skip
    apply (subst y)
    apply (simp only: add_0 f1)
    apply (subst z)
    apply (simp only: f2 finditer_tail [OF rest])
    apply simp
    done
  then show ?thesis by (simp add: findall_def)
qed

text \<open>
  C4: a text with exactly two section markers \<open>\section{t1}\<close> and \<open>\section{t2}\<close>
  (titles without a closing brace inside, no further \<open>\section{\<close> before, between or
  after them) and no \<open>\subsection{\<close> in the two bodies yields exactly two entries in the
  order of the text. The content of the first is the text \<open>c1\<close> between the end of the
  first marker and the beginning of the second, no more and no less; the content of the
  second is the rest of the text, up to its final line feed when it ends with one.
\<close>

theorem two_sections_parsed:
  assumes "text = pre @ section_marker @ t1 @ ''}'' @ c1 @ section_marker @ t2 @ ''}'' @ c2"
    and "CHR ''}'' \<notin> set t1" and "CHR ''}'' \<notin> set t2"
    and "\<not> occurs section_marker pre"
    and "\<not> occurs section_marker c1" and "\<not> occurs section_marker c2"
    and "\<not> occurs subsection_marker c1" and "\<not> occurs subsection_marker c2"
  shows "read_text text =
           \<lparr>sections =
              [\<lparr>title = t1, content = c1, subsections = []\<rparr>,
               \<lparr>title = t2, content = chomp c2, subsections = []\<rparr>],
            doc_content = text\<rparr>"
proof -
  have secs: "findall section_pattern text = [(t1, c1), (t2, chomp c2)]"
    unfolding assms(1) by (rule two_sections_findall [OF assms(2-6)])
  have s1: "findall subsection_pattern c1 = []"
    by (rule no_subsections [OF assms(7)])
  obtain rest where "c2 = chomp c2 @ rest" using chomp_split by blast
  then have "\<not> occurs subsection_marker (chomp c2)"
    using assms(8) occurs_prefix by metis
  then have s2: "findall subsection_pattern (chomp c2) = []"
    by (rule no_subsections)
  show ?thesis by (simp add: read_text_def secs s1 s2)
qed

text \<open>The hypotheses hold for \<open>pre\section{A}abc\section{B}def\<close> followed by a line feed.\<close>

theorem two_sections_parsed_witness:
  "read_text (''pre'' @ section_marker @ ''A}abc'' @ section_marker @ ''B}def'' @ [CHR 0x0A]) =
     \<lparr>sections =
        [\<lparr>title = ''A'', content = ''abc'', subsections = []\<rparr>,
         \<lparr>title = ''B'', content = ''def'', subsections = []\<rparr>],
      doc_content = ''pre'' @ section_marker @ ''A}abc'' @ section_marker @ ''B}def'' @ [CHR 0x0A]\<rparr>"
proof -
  have ch: "chomp (''def'' @ [CHR 0x0A]) = ''def''" by (simp add: chomp_def)
  have "read_text (''pre'' @ section_marker @ ''A}abc'' @ section_marker @ ''B}def'' @ [CHR 0x0A]) =
     \<lparr>sections =
        [\<lparr>title = ''A'', content = ''abc'', subsections = []\<rparr>,
         \<lparr>title = ''B'', content = chomp (''def'' @ [CHR 0x0A]), subsections = []\<rparr>],
      doc_content = ''pre'' @ section_marker @ ''A}abc'' @ section_marker @ ''B}def'' @ [CHR 0x0A]\<rparr>"
    by (rule two_sections_parsed [where pre = "''pre''" and ?t1.0 = "''A''" and ?c1.0 = "''abc''"
          and ?t2.0 = "''B''" and ?c2.0 = "''def'' @ [CHR 0x0A]"])
       (simp_all add: starts_with_def)
  then show ?thesis unfolding ch .
qed

end
